theory Spec2Isabelle
  imports Main "HOL-Library.Word"
begin

section \<open>The TLS decorator of Rover (TlsDecorator.cpp)\<close>

text \<open>
  A shallow embedding of \<^verbatim>\<open>TlsConnectionDecorator\<close> and \<^verbatim>\<open>TlsDecorator::Connect\<close>.
  The object's members are the fields of a record; every method and every engine hook is
  a function on that record. Calls that leave the object (to the raw connection, to the
  caller's delegates, to the TLS engine) are appended to the field \<open>calls\<close>, in the
  order in which the code makes them. The TLS engine (libtls) is an external collaborator:
  what one call of \<^verbatim>\<open>tls_write\<close> or \<^verbatim>\<open>tls_read\<close> does (which hooks it invokes, what it
  returns, which plaintext it stores) is a parameter of the model, an \<open>engine_call\<close>.
\<close>

subsection \<open>Data\<close>

type_synonym byte = "8 word"

text \<open>A delegate (\<^verbatim>\<open>std::function\<close>) is identified by a number; \<open>None\<close> is \<^verbatim>\<open>nullptr\<close>.\<close>

type_synonym delegate = nat

datatype action =
    UpperSendData "byte list"           \<comment> \<open>\<^verbatim>\<open>upperLayer_->SendData(v)\<close>\<close>
  | UpperBreak bool                     \<comment> \<open>\<^verbatim>\<open>upperLayer_->Break(clean)\<close>\<close>
  | DataReceived delegate "byte list"   \<comment> \<open>\<^verbatim>\<open>dataReceivedDelegate_(receiveBufferDecrypted_)\<close>\<close>
  | Broken delegate bool                \<comment> \<open>\<^verbatim>\<open>brokenDelegate_(false)\<close>\<close>
  | TlsWrite "byte list" int            \<comment> \<open>\<^verbatim>\<open>tls_write(ctx, buf, len)\<close> and what it returned\<close>
  | TlsRead nat int                     \<comment> \<open>\<^verbatim>\<open>tls_read(ctx, buf, len)\<close> and what it returned\<close>
  | ReadCb nat int "byte list"          \<comment> \<open>the read hook: \<^verbatim>\<open>_buflen\<close>, its result, the bytes copied to \<^verbatim>\<open>_buf\<close>\<close>
  | WriteCb "byte list" int             \<comment> \<open>the write hook: the bytes of \<^verbatim>\<open>_buf\<close>, its result\<close>

text \<open>What the source leaves undefined: a call through a null \<^verbatim>\<open>upperLayer_\<close>, and
  \<^verbatim>\<open>sendBuffer_.erase\<close> past the end of the vector.\<close>

datatype fault = NullUpperLayer | EraseOutOfRange

text \<open>Where the worker thread stands between two of its critical sections.\<close>

datatype worker_pc =
    NoThread      \<comment> \<open>\<^verbatim>\<open>worker_\<close> is not joinable\<close>
  | Ready         \<comment> \<open>thread created, before the first test of \<^verbatim>\<open>while (!stopWorker_)\<close>\<close>
  | Delivering    \<comment> \<open>inside \<^verbatim>\<open>dataReceivedDelegate_\<close>, mutex released\<close>
  | Waiting       \<comment> \<open>inside \<^verbatim>\<open>wakeCondition_.wait\<close>, mutex released\<close>
  | Finished      \<comment> \<open>the loop has ended\<close>

record tls_config =
  verify_cert :: bool
  verify_name :: bool
  protocols :: "32 word"

record conn =
  upperLayer :: bool                        \<comment> \<open>\<^verbatim>\<open>upperLayer_ != nullptr\<close>\<close>
  dataReceivedDelegate :: "delegate option"
  brokenDelegate :: "delegate option"
  tlsConfig :: "tls_config option"
  serverName :: string                      \<comment> \<open>the name given to \<^verbatim>\<open>tls_connect_cbs\<close>\<close>
  sendBuffer :: "byte list"
  receiveBufferSecure :: "byte list"
  receiveBufferDecrypted :: "byte list"
  isOpen :: bool                            \<comment> \<open>\<^verbatim>\<open>open_\<close>\<close>
  canWrite :: bool
  stopWorker :: bool
  tryRead :: bool                           \<comment> \<open>local variable of \<^verbatim>\<open>Worker\<close>\<close>
  worker :: worker_pc
  notifying :: nat                          \<comment> \<open>runs of \<^verbatim>\<open>ConnectionBroken\<close> past the mutex, before the test\<close>
  firing :: nat                             \<comment> \<open>runs of \<^verbatim>\<open>ConnectionBroken\<close> past the test, before the call\<close>
  calls :: "action list"

text \<open>Modelled from the spec: the two would-block sentinels of the TLS engine. They come
  from the engine's header \<^verbatim>\<open>tls.h\<close>, which is not part of the repository; the values are
  those of libtls. The code only compares results with them and with 0.\<close>

definition TLS_WANT_POLLIN :: int where
  "TLS_WANT_POLLIN = - 2"

definition TLS_WANT_POLLOUT :: int where
  "TLS_WANT_POLLOUT = - 3"

definition DECRYPTED_BUFFER_SIZE :: nat where
  "DECRYPTED_BUFFER_SIZE = 65536"

text \<open>The default member initialisers and the constructor.\<close>

definition TlsConnectionDecorator :: conn where
  "TlsConnectionDecorator =
     \<lparr> upperLayer = False, dataReceivedDelegate = None, brokenDelegate = None,
       tlsConfig = None, serverName = [], sendBuffer = [], receiveBufferSecure = [],
       receiveBufferDecrypted = [], isOpen = True, canWrite = True, stopWorker = True,
       tryRead = True, worker = NoThread, notifying = 0, firing = 0, calls = [] \<rparr>"

text \<open>\<^verbatim>\<open>std::vector::resize(n)\<close>: new elements are value-initialised.\<close>

definition resize :: "nat \<Rightarrow> byte list \<Rightarrow> byte list" where
  "resize n xs = take n xs @ replicate (n - length xs) 0"

subsection \<open>Methods called by the raw connection and by the caller\<close>

definition SecureDataReceived :: "byte list \<Rightarrow> conn \<Rightarrow> conn" where
  "SecureDataReceived data s = s\<lparr>receiveBufferSecure := receiveBufferSecure s @ data\<rparr>"

text \<open>\<^verbatim>\<open>ConnectionBroken\<close> holds the mutex only while it clears \<^verbatim>\<open>open_\<close>. It tests
  \<^verbatim>\<open>receiveBufferSecure_\<close> and the delegate after it has released the mutex, and calls
  the delegate after that. Other threads can run between the three pieces, so each is a
  function of its own; \<open>notifying\<close> and \<open>firing\<close> say where the runs of the handler
  stand.\<close>

definition ConnectionBroken_locked :: "conn \<Rightarrow> conn" where
  "ConnectionBroken_locked s = s\<lparr>isOpen := False, notifying := Suc (notifying s)\<rparr>"

definition ConnectionBroken_test :: "conn \<Rightarrow> conn" where
  "ConnectionBroken_test s =
     (if notifying s = 0 then s
      else
        (let s1 = s\<lparr>notifying := notifying s - 1\<rparr> in
         if receiveBufferSecure s1 = [] \<and> brokenDelegate s1 \<noteq> None
         then s1\<lparr>firing := Suc (firing s1)\<rparr>
         else s1))"

definition ConnectionBroken_call :: "conn \<Rightarrow> conn" where
  "ConnectionBroken_call s =
     (if firing s = 0 then s
      else
        (case brokenDelegate s of
           Some d \<Rightarrow> s\<lparr>firing := firing s - 1, calls := calls s @ [Broken d False]\<rparr>
         | None \<Rightarrow> s\<lparr>firing := firing s - 1\<rparr>))"

text \<open>The whole handler, when no other thread runs in between.\<close>

definition ConnectionBroken :: "conn \<Rightarrow> conn" where
  "ConnectionBroken s =
     ConnectionBroken_call (ConnectionBroken_test (ConnectionBroken_locked s))"

definition SetDataReceivedDelegate :: "delegate option \<Rightarrow> conn \<Rightarrow> conn" where
  "SetDataReceivedDelegate d s = s"

definition SetBrokenDelegate :: "delegate option \<Rightarrow> conn \<Rightarrow> conn" where
  "SetBrokenDelegate d s = s"

definition SendData :: "byte list \<Rightarrow> conn \<Rightarrow> conn" where
  "SendData data s = s\<lparr>sendBuffer := sendBuffer s @ data\<rparr>"

definition upperLayer_Break :: "bool \<Rightarrow> conn \<Rightarrow> fault + conn" where
  "upperLayer_Break clean s =
     (if upperLayer s then Inr (s\<lparr>calls := calls s @ [UpperBreak clean]\<rparr>)
      else Inl NullUpperLayer)"

definition Break :: "bool \<Rightarrow> conn \<Rightarrow> fault + conn" where
  "Break clean s = upperLayer_Break False s"

text \<open>The destructor, up to \<^verbatim>\<open>worker_.join()\<close>.\<close>

definition Destroy :: "conn \<Rightarrow> conn" where
  "Destroy s = (if worker s \<noteq> NoThread then s\<lparr>stopWorker := True\<rparr> else s)"

subsection \<open>The two hooks given to \<^verbatim>\<open>tls_connect_cbs\<close>\<close>

text \<open>The read hook returns its result, the bytes it copied to \<^verbatim>\<open>_buf\<close> and the new state.\<close>

definition read_cb :: "nat \<Rightarrow> conn \<Rightarrow> int \<times> byte list \<times> conn" where
  "read_cb buflen s =
     (let amt = min buflen (length (receiveBufferSecure s)) in
      if amt = 0 \<and> isOpen s then (TLS_WANT_POLLIN, [], s)
      else
        (int amt, take amt (receiveBufferSecure s),
         s\<lparr>canWrite := True,
           receiveBufferSecure :=
             (if amt = length (receiveBufferSecure s) then []
              else drop amt (receiveBufferSecure s))\<rparr>))"

definition write_cb :: "byte list \<Rightarrow> conn \<Rightarrow> fault + (int \<times> conn)" where
  "write_cb buf s =
     (if isOpen s then
        (if upperLayer s
         then Inr (int (length buf), s\<lparr>calls := calls s @ [UpperSendData buf]\<rparr>)
         else Inl NullUpperLayer)
      else Inr (int (length buf), s))"

subsection \<open>The TLS engine\<close>

datatype hook = CallRead nat | CallWrite "byte list"

record engine_call =
  hooks :: "hook list"          \<comment> \<open>the hooks the engine invokes during the call, in order\<close>
  result :: int                 \<comment> \<open>what the call returns\<close>
  plaintext :: "byte list"      \<comment> \<open>what \<^verbatim>\<open>tls_read\<close> stores at the start of its buffer\<close>

definition run_hook :: "hook \<Rightarrow> conn \<Rightarrow> fault + conn" where
  "run_hook h s =
     (case h of
        CallRead n \<Rightarrow>
          (case read_cb n s of
             (r, out, s1) \<Rightarrow> Inr (s1\<lparr>calls := calls s1 @ [ReadCb n r out]\<rparr>))
      | CallWrite buf \<Rightarrow>
          (case write_cb buf s of
             Inl f \<Rightarrow> Inl f
           | Inr (r, s1) \<Rightarrow> Inr (s1\<lparr>calls := calls s1 @ [WriteCb buf r]\<rparr>)))"

fun run_hooks :: "hook list \<Rightarrow> conn \<Rightarrow> fault + conn" where
  "run_hooks [] s = Inr s"
| "run_hooks (h # hs) s =
     (case run_hook h s of Inl f \<Rightarrow> Inl f | Inr s1 \<Rightarrow> run_hooks hs s1)"

definition tls_write :: "engine_call \<Rightarrow> byte list \<Rightarrow> conn \<Rightarrow> fault + (int \<times> conn)" where
  "tls_write e buf s =
     (case run_hooks (hooks e) s of
        Inl f \<Rightarrow> Inl f
      | Inr s1 \<Rightarrow> Inr (result e, s1\<lparr>calls := calls s1 @ [TlsWrite buf (result e)]\<rparr>))"

text \<open>The engine writes its plaintext over the start of the buffer it was given and never
  beyond the buffer's end.\<close>

definition engine_store :: "byte list \<Rightarrow> byte list \<Rightarrow> byte list" where
  "engine_store pt buf = take (length buf) pt @ drop (length pt) buf"

definition tls_read :: "engine_call \<Rightarrow> conn \<Rightarrow> fault + (int \<times> conn)" where
  "tls_read e s =
     (case run_hooks (hooks e) s of
        Inl f \<Rightarrow> Inl f
      | Inr s1 \<Rightarrow>
          Inr (result e,
               s1\<lparr>receiveBufferDecrypted :=
                     engine_store (plaintext e) (receiveBufferDecrypted s1),
                  calls := calls s1 @ [TlsRead (length (receiveBufferDecrypted s1)) (result e)]\<rparr>))"

subsection \<open>\<^verbatim>\<open>TlsConnectionDecorator::Connect\<close> and \<^verbatim>\<open>TlsDecorator::Connect\<close>\<close>

definition tls_config_insecure_noverifycert :: "tls_config \<Rightarrow> tls_config" where
  "tls_config_insecure_noverifycert c = c\<lparr>verify_cert := False\<rparr>"

definition tls_config_insecure_noverifyname :: "tls_config \<Rightarrow> tls_config" where
  "tls_config_insecure_noverifyname c = c\<lparr>verify_name := False\<rparr>"

definition tls_config_set_protocols :: "tls_config \<Rightarrow> 32 word \<Rightarrow> tls_config" where
  "tls_config_set_protocols c p = c\<lparr>protocols := p\<rparr>"

text \<open>The library's part of \<^verbatim>\<open>Connect\<close> is a parameter: the configuration
  \<^verbatim>\<open>tls_config_new()\<close> returns, the value of the macro \<^verbatim>\<open>TLS_PROTOCOLS_DEFAULT\<close>, and the
  results of \<^verbatim>\<open>tls_configure\<close> and \<^verbatim>\<open>tls_connect_cbs\<close>. Starting the thread sets the
  worker's local \<^verbatim>\<open>tryRead\<close>, as the first statements of \<^verbatim>\<open>Worker\<close> do.\<close>

record tls_library =
  tls_config_new :: tls_config
  TLS_PROTOCOLS_DEFAULT :: "32 word"
  tls_configure :: int
  tls_connect_cbs :: int

definition Connect ::
  "tls_library \<Rightarrow> bool \<Rightarrow> delegate option \<Rightarrow> delegate option \<Rightarrow> string \<Rightarrow> conn \<Rightarrow> bool \<times> conn"
where
  "Connect lib upper dataReceived broken name s =
     (if worker s \<noteq> NoThread then (False, s)
      else
        (let s1 = s\<lparr>upperLayer := upper, dataReceivedDelegate := dataReceived,
                    brokenDelegate := broken, tlsConfig := Some (tls_config_new lib)\<rparr>;
             c1 = tls_config_insecure_noverifycert (tls_config_new lib);
             c2 = tls_config_insecure_noverifyname c1;
             c3 = tls_config_set_protocols c2 (TLS_PROTOCOLS_DEFAULT lib);
             s2 = s1\<lparr>tlsConfig := Some c3\<rparr>
         in if tls_configure lib \<noteq> 0 then (False, s2)
            else
              (let s3 = s2\<lparr>serverName := name\<rparr>
               in if tls_connect_cbs lib \<noteq> 0 then (False, s3)
                  else (True, s3\<lparr>stopWorker := False, tryRead := True, worker := Ready\<rparr>))))"

text \<open>\<^verbatim>\<open>TlsDecorator::Connect\<close>: \<open>upper\<close> tells whether the wrapped transport's \<^verbatim>\<open>Connect\<close>
  returned a connection (\<open>False\<close> is \<^verbatim>\<open>nullptr\<close>). The result \<open>None\<close> is \<^verbatim>\<open>nullptr\<close>.\<close>

definition TlsDecorator_Connect ::
  "tls_library \<Rightarrow> bool \<Rightarrow> string \<Rightarrow> 16 word \<Rightarrow> delegate option \<Rightarrow> delegate option \<Rightarrow> conn option"
where
  "TlsDecorator_Connect lib upper hostNameOrAddress port dataReceived broken =
     (case Connect lib upper dataReceived broken hostNameOrAddress TlsConnectionDecorator of
        (True, s) \<Rightarrow> Some s
      | (False, s) \<Rightarrow> None)"

subsection \<open>The worker\<close>

definition write_attempt :: "engine_call \<Rightarrow> conn \<Rightarrow> fault + conn" where
  "write_attempt e s =
     (if sendBuffer s \<noteq> [] \<and> canWrite s \<and> isOpen s then
        (case tls_write e (sendBuffer s) s of
           Inl f \<Rightarrow> Inl f
         | Inr (amount, s1) \<Rightarrow>
             if amount = TLS_WANT_POLLIN then Inr (s1\<lparr>canWrite := False\<rparr>)
             else if amount < 0 then upperLayer_Break False s1
             else if nat amount = length (sendBuffer s1) then Inr (s1\<lparr>sendBuffer := []\<rparr>)
             else if nat amount > length (sendBuffer s1) then Inl EraseOutOfRange
             else Inr (s1\<lparr>sendBuffer := drop (nat amount) (sendBuffer s1)\<rparr>))
      else Inr s)"

text \<open>The test that follows the delivery of plaintext, then the entry into the wait.\<close>

definition after_delivery :: "conn \<Rightarrow> conn" where
  "after_delivery s =
     (let s1 =
        (if receiveBufferSecure s = [] \<and> \<not> isOpen s then
           (case brokenDelegate s of
              Some d \<Rightarrow> s\<lparr>calls := calls s @ [Broken d False]\<rparr>
            | None \<Rightarrow> s)
         else s)
      in s1\<lparr>worker := Waiting\<rparr>)"

definition read_attempt :: "engine_call \<Rightarrow> conn \<Rightarrow> fault + conn" where
  "read_attempt e s =
     (if receiveBufferSecure s \<noteq> [] \<or> tryRead s then
        (let s0 = s\<lparr>tryRead := True,
                    receiveBufferDecrypted :=
                      resize DECRYPTED_BUFFER_SIZE (receiveBufferDecrypted s)\<rparr>
         in case tls_read e s0 of
              Inl f \<Rightarrow> Inl f
            | Inr (amount, s1) \<Rightarrow>
                if amount = TLS_WANT_POLLIN then Inr (s1\<lparr>worker := Waiting\<rparr>)
                else if amount = TLS_WANT_POLLOUT then Inr (s1\<lparr>worker := Waiting\<rparr>)
                else if amount < 0 then
                  (case upperLayer_Break False s1 of
                     Inl f \<Rightarrow> Inl f
                   | Inr s2 \<Rightarrow> Inr (s2\<lparr>worker := Waiting\<rparr>))
                else if amount > 0 then
                  (let s2 = s1\<lparr>receiveBufferDecrypted :=
                                 resize (nat amount) (receiveBufferDecrypted s1)\<rparr>
                   in case dataReceivedDelegate s2 of
                        Some d \<Rightarrow>
                          Inr (s2\<lparr>calls := calls s2 @ [DataReceived d (receiveBufferDecrypted s2)],
                                  worker := Delivering\<rparr>)
                      | None \<Rightarrow> Inr (after_delivery s2))
                else Inr (s1\<lparr>tryRead := False, worker := Waiting\<rparr>))
      else Inr (s\<lparr>worker := Waiting\<rparr>))"

text \<open>The predicate given to \<^verbatim>\<open>wakeCondition_.wait\<close>.\<close>

definition wake_predicate :: "conn \<Rightarrow> bool" where
  "wake_predicate s \<longleftrightarrow>
     stopWorker s \<or> receiveBufferSecure s \<noteq> [] \<or> (sendBuffer s \<noteq> [] \<and> canWrite s)"

text \<open>One pass through the body of \<^verbatim>\<open>while (!stopWorker_)\<close>, from the loop test to the
  point where the worker next releases the mutex.\<close>

definition loop_iteration :: "engine_call \<Rightarrow> engine_call \<Rightarrow> conn \<Rightarrow> fault + conn" where
  "loop_iteration w r s =
     (if stopWorker s then Inr (s\<lparr>worker := Finished\<rparr>)
      else (case write_attempt w s of Inl f \<Rightarrow> Inl f | Inr s1 \<Rightarrow> read_attempt r s1))"

text \<open>One critical section of the worker thread. \<open>w\<close> and \<open>r\<close> say what the engine does
  if \<^verbatim>\<open>tls_write\<close> and \<^verbatim>\<open>tls_read\<close> are called in it.\<close>

definition Worker :: "engine_call \<Rightarrow> engine_call \<Rightarrow> conn \<Rightarrow> fault + conn" where
  "Worker w r s =
     (case worker s of
        NoThread \<Rightarrow> Inr s
      | Finished \<Rightarrow> Inr s
      | Ready \<Rightarrow> loop_iteration w r s
      | Delivering \<Rightarrow> Inr (after_delivery s)
      | Waiting \<Rightarrow> if wake_predicate s then loop_iteration w r s else Inr s)"

subsection \<open>Connection lifetimes\<close>

text \<open>Everything that can happen to a connection once \<^verbatim>\<open>TlsDecorator::Connect\<close> has
  returned it: the raw connection's two callbacks, the caller's calls, the critical
  sections of the worker, and the destructor. The mutex makes each of them atomic with
  respect to the others. \<^verbatim>\<open>ConnectionBroken\<close> is three events: its section under the
  mutex, its test of \<^verbatim>\<open>receiveBufferSecure_\<close> and its call of the delegate; any other
  event can come between them.\<close>

datatype event =
    OnSecureData "byte list"
  | OnBroken
  | OnBrokenTest
  | OnBrokenCall
  | CallSendData "byte list"
  | CallBreak bool
  | CallSetDataReceivedDelegate "delegate option"
  | CallSetBrokenDelegate "delegate option"
  | WorkerRuns engine_call engine_call
  | Destructor

definition step :: "event \<Rightarrow> conn \<Rightarrow> fault + conn" where
  "step ev s =
     (case ev of
        OnSecureData data \<Rightarrow> Inr (SecureDataReceived data s)
      | OnBroken \<Rightarrow> Inr (ConnectionBroken_locked s)
      | OnBrokenTest \<Rightarrow> Inr (ConnectionBroken_test s)
      | OnBrokenCall \<Rightarrow> Inr (ConnectionBroken_call s)
      | CallSendData data \<Rightarrow> Inr (SendData data s)
      | CallBreak clean \<Rightarrow> Break clean s
      | CallSetDataReceivedDelegate d \<Rightarrow> Inr (SetDataReceivedDelegate d s)
      | CallSetBrokenDelegate d \<Rightarrow> Inr (SetBrokenDelegate d s)
      | WorkerRuns w r \<Rightarrow> Worker w r s
      | Destructor \<Rightarrow> Inr (Destroy s))"

fun run :: "event list \<Rightarrow> conn \<Rightarrow> fault + conn" where
  "run [] s = Inr s"
| "run (ev # evs) s = (case step ev s of Inl f \<Rightarrow> Inl f | Inr s1 \<Rightarrow> run evs s1)"

subsection \<open>Reading the record of calls\<close>

definition is_Broken :: "action \<Rightarrow> bool" where
  "is_Broken a = (case a of Broken d c \<Rightarrow> True | _ \<Rightarrow> False)"

definition is_TlsWrite :: "action \<Rightarrow> bool" where
  "is_TlsWrite a = (case a of TlsWrite buf n \<Rightarrow> True | _ \<Rightarrow> False)"

definition is_TlsRead :: "action \<Rightarrow> bool" where
  "is_TlsRead a = (case a of TlsRead len n \<Rightarrow> True | _ \<Rightarrow> False)"

definition is_UpperBreak :: "action \<Rightarrow> bool" where
  "is_UpperBreak a = (case a of UpperBreak c \<Rightarrow> True | _ \<Rightarrow> False)"

text \<open>How often \<^verbatim>\<open>brokenDelegate_\<close> has been invoked.\<close>

definition broken_count :: "conn \<Rightarrow> nat" where
  "broken_count s = length (filter is_Broken (calls s))"

text \<open>The plaintext the engine has accepted: a \<^verbatim>\<open>tls_write\<close> that returns \<open>n \<ge> 0\<close> has
  taken the first \<open>n\<close> bytes of the buffer it was given.\<close>

definition taken_by_engine :: "action \<Rightarrow> byte list" where
  "taken_by_engine a =
     (case a of TlsWrite buf n \<Rightarrow> (if 0 \<le> n then take (nat n) buf else []) | _ \<Rightarrow> [])"

definition encrypted_of :: "action list \<Rightarrow> byte list" where
  "encrypted_of as = concat (map taken_by_engine as)"

text \<open>The ciphertext the read hook has handed to the engine.\<close>

definition copied_to_engine :: "action \<Rightarrow> byte list" where
  "copied_to_engine a = (case a of ReadCb n r out \<Rightarrow> out | _ \<Rightarrow> [])"

definition fed_to_engine :: "action list \<Rightarrow> byte list" where
  "fed_to_engine as = concat (map copied_to_engine as)"

text \<open>Everything that ever entered a buffer: what has left it at the head, then what is
  still in it.\<close>

definition plain_stream :: "conn \<Rightarrow> byte list" where
  "plain_stream s = encrypted_of (calls s) @ sendBuffer s"

definition cipher_stream :: "conn \<Rightarrow> byte list" where
  "cipher_stream s = fed_to_engine (calls s) @ receiveBufferSecure s"

text \<open>What the caller submitted and what the raw connection delivered, in order.\<close>

definition submitted_by :: "event \<Rightarrow> byte list" where
  "submitted_by ev = (case ev of CallSendData data \<Rightarrow> data | _ \<Rightarrow> [])"

definition submitted :: "event list \<Rightarrow> byte list" where
  "submitted evs = concat (map submitted_by evs)"

definition delivered_by :: "event \<Rightarrow> byte list" where
  "delivered_by ev = (case ev of OnSecureData data \<Rightarrow> data | _ \<Rightarrow> [])"

definition delivered :: "event list \<Rightarrow> byte list" where
  "delivered evs = concat (map delivered_by evs)"

subsection \<open>Concrete scenarios\<close>

text \<open>A library whose configuration and connection set-up succeed, and the connection
  \<^verbatim>\<open>TlsDecorator::Connect\<close> then returns for a raw connection that was opened.\<close>

definition working_library :: tls_library where
  "working_library =
     \<lparr> tls_config_new = \<lparr>verify_cert = True, verify_name = True, protocols = 0\<rparr>,
       TLS_PROTOCOLS_DEFAULT = 8, tls_configure = 0, tls_connect_cbs = 0 \<rparr>"

definition connected :: conn where
  "connected =
     \<lparr> upperLayer = True, dataReceivedDelegate = Some 1, brokenDelegate = Some 2,
       tlsConfig = Some \<lparr>verify_cert = False, verify_name = False, protocols = 8\<rparr>,
       serverName = ''example.org'', sendBuffer = [], receiveBufferSecure = [],
       receiveBufferDecrypted = [], isOpen = True, canWrite = True, stopWorker = False,
       tryRead = True, worker = Ready, notifying = 0, firing = 0, calls = [] \<rparr>"

text \<open>Engine calls: one that asks the read hook for 5 bytes and reports that it would
  block; one that takes up to 64 bytes of ciphertext and returns one byte of plaintext;
  one that takes up to 64 bytes and reports the end of the stream; one that accepts two
  bytes of plaintext and emits a record of three bytes.\<close>

definition starved :: engine_call where
  "starved = \<lparr> hooks = [CallRead 5], result = TLS_WANT_POLLIN, plaintext = [] \<rparr>"

definition decrypts_one :: engine_call where
  "decrypts_one = \<lparr> hooks = [CallRead 64], result = 1, plaintext = [65] \<rparr>"

definition sees_close :: engine_call where
  "sees_close = \<lparr> hooks = [CallRead 64, CallRead 64], result = 0, plaintext = [] \<rparr>"

definition accepts_two :: engine_call where
  "accepts_two = \<lparr> hooks = [CallWrite [23, 3, 3]], result = 2, plaintext = [] \<rparr>"

definition refuses :: engine_call where
  "refuses = \<lparr> hooks = [], result = - 1, plaintext = [] \<rparr>"

text \<open>Two more: the first call of a session, which emits the opening handshake record
  before it asks for ciphertext; and a call that is given less than a record header.\<close>

definition starts_handshake :: engine_call where
  "starts_handshake =
     \<lparr> hooks = [CallWrite [22, 3, 1], CallRead 5], result = TLS_WANT_POLLIN, plaintext = [] \<rparr>"

definition needs_more :: engine_call where
  "needs_more = \<lparr> hooks = [CallRead 5, CallRead 4], result = TLS_WANT_POLLIN, plaintext = [] \<rparr>"

text \<open>The caller sends three bytes and later one more; the engine accepts two of them
  while a record arrives.\<close>

definition send_and_receive :: "event list" where
  "send_and_receive =
     [CallSendData [1, 2, 3], OnSecureData [23, 3, 3], WorkerRuns accepts_two decrypts_one,
      CallSendData [4]]"

text \<open>The peer's closing record is read while the raw connection is open, and a stray
  byte arrives afterwards.\<close>

definition byte_after_close :: "event list" where
  "byte_after_close = [OnSecureData [21, 3, 3], WorkerRuns starved sees_close, OnSecureData [23]]"

text \<open>The last plaintext is still being delivered when the raw connection breaks.\<close>

definition break_during_delivery :: "event list" where
  "break_during_delivery =
     [WorkerRuns starved starved, OnSecureData [23, 3, 3], WorkerRuns starved decrypts_one,
      OnBroken, OnBrokenTest, OnBrokenCall, WorkerRuns starved starved, Destructor,
      WorkerRuns starved starved]"

text \<open>A record is buffered when the raw connection breaks; the worker reads it and
  starts to deliver the plaintext before the handler makes its test.\<close>

definition break_tested_after_read :: "event list" where
  "break_tested_after_read =
     [WorkerRuns starved starved, OnSecureData [23, 3, 3], OnBroken,
      WorkerRuns starved decrypts_one, OnBrokenTest, OnBrokenCall, WorkerRuns starved starved,
      Destructor, WorkerRuns starved starved]"

text \<open>The peer's closing record is still buffered when the raw connection breaks, and
  the handler has returned before the worker reads it.\<close>

definition break_before_close_is_read :: "event list" where
  "break_before_close_is_read =
     [WorkerRuns starved starved, OnSecureData [21, 3, 3], OnBroken, OnBrokenTest,
      OnBrokenCall, WorkerRuns starved sees_close, Destructor, WorkerRuns starved starved]"

section \<open>Lemmas\<close>

subsection \<open>What the hooks leave alone\<close>

lemma run_hook_frame:
  assumes "run_hook h s = Inr s'"
  shows "sendBuffer s' = sendBuffer s \<and> isOpen s' = isOpen s \<and> upperLayer s' = upperLayer s \<and>
    dataReceivedDelegate s' = dataReceivedDelegate s \<and> brokenDelegate s' = brokenDelegate s \<and>
    tryRead s' = tryRead s \<and> worker s' = worker s \<and> stopWorker s' = stopWorker s \<and>
    receiveBufferDecrypted s' = receiveBufferDecrypted s"
  using assms
  by (cases h) (auto simp: run_hook_def read_cb_def write_cb_def Let_def split: if_splits)

lemma run_hooks_frame:
  assumes "run_hooks hs s = Inr s'"
  shows "sendBuffer s' = sendBuffer s \<and> isOpen s' = isOpen s \<and> upperLayer s' = upperLayer s \<and>
    dataReceivedDelegate s' = dataReceivedDelegate s \<and> brokenDelegate s' = brokenDelegate s \<and>
    tryRead s' = tryRead s \<and> worker s' = worker s \<and> stopWorker s' = stopWorker s \<and>
    receiveBufferDecrypted s' = receiveBufferDecrypted s"
  using assms
proof (induction hs arbitrary: s)
  case Nil
  then show ?case by simp
next
  case (Cons h hs)
  then obtain s1 where h: "run_hook h s = Inr s1" and hs: "run_hooks hs s1 = Inr s'"
    by (auto split: sum.splits)
  from Cons.IH [OF hs] run_hook_frame [OF h] show ?case by simp
qed

lemma run_hook_calls:
  assumes "run_hook h s = Inr s'"
    and "\<And>n r out. \<not> P (ReadCb n r out)" and "\<And>buf r. \<not> P (WriteCb buf r)"
    and "\<And>buf. \<not> P (UpperSendData buf)"
  shows "filter P (calls s') = filter P (calls s)"
  using assms
  by (cases h) (auto simp: run_hook_def read_cb_def write_cb_def Let_def split: if_splits)

lemma run_hooks_calls:
  assumes "run_hooks hs s = Inr s'"
    and "\<And>n r out. \<not> P (ReadCb n r out)" and "\<And>buf r. \<not> P (WriteCb buf r)"
    and "\<And>buf. \<not> P (UpperSendData buf)"
  shows "filter P (calls s') = filter P (calls s)"
  using assms(1)
proof (induction hs arbitrary: s)
  case Nil
  then show ?case by simp
next
  case (Cons h hs)
  then obtain s1 where h: "run_hook h s = Inr s1" and hs: "run_hooks hs s1 = Inr s'"
    by (auto split: sum.splits)
  from Cons.IH [OF hs] run_hook_calls [OF h assms(2-4)] show ?case by simp
qed

lemma run_hook_returns:
  assumes "upperLayer s"
  shows "\<exists>s'. run_hook h s = Inr s'"
  using assms
  by (cases h) (auto simp: run_hook_def read_cb_def write_cb_def Let_def split: prod.splits)

lemma run_hooks_returns:
  assumes "upperLayer s"
  shows "\<exists>s'. run_hooks hs s = Inr s'"
  using assms
proof (induction hs arbitrary: s)
  case Nil
  then show ?case by simp
next
  case (Cons h hs)
  from run_hook_returns [OF Cons.prems] obtain s1 where h: "run_hook h s = Inr s1" ..
  from run_hook_frame [OF h] Cons.prems have "upperLayer s1" by simp
  from Cons.IH [OF this] h show ?case by simp
qed

lemma run_hook_totals:
  assumes "run_hook h s = Inr s'"
  shows "encrypted_of (calls s') = encrypted_of (calls s) \<and>
    fed_to_engine (calls s') @ receiveBufferSecure s' =
      fed_to_engine (calls s) @ receiveBufferSecure s"
  using assms
  by (cases h)
    (auto simp: run_hook_def read_cb_def write_cb_def Let_def encrypted_of_def fed_to_engine_def
      taken_by_engine_def copied_to_engine_def min_def split: if_splits)

lemma run_hooks_totals:
  assumes "run_hooks hs s = Inr s'"
  shows "encrypted_of (calls s') = encrypted_of (calls s) \<and>
    fed_to_engine (calls s') @ receiveBufferSecure s' =
      fed_to_engine (calls s) @ receiveBufferSecure s"
  using assms
proof (induction hs arbitrary: s)
  case Nil
  then show ?case by simp
next
  case (Cons h hs)
  then obtain s1 where h: "run_hook h s = Inr s1" and hs: "run_hooks hs s1 = Inr s'"
    by (auto split: sum.splits)
  from Cons.IH [OF hs] run_hook_totals [OF h] show ?case by simp
qed

subsection \<open>The caller's delegates and the raw connection stay as \<^verbatim>\<open>Connect\<close> set them\<close>

lemma tls_write_frame:
  assumes "tls_write e buf s = Inr (n, s')"
  shows "n = result e \<and> sendBuffer s' = sendBuffer s \<and> isOpen s' = isOpen s \<and>
    upperLayer s' = upperLayer s \<and> dataReceivedDelegate s' = dataReceivedDelegate s \<and>
    brokenDelegate s' = brokenDelegate s \<and> tryRead s' = tryRead s \<and> worker s' = worker s \<and>
    stopWorker s' = stopWorker s"
proof (cases "run_hooks (hooks e) s")
  case (Inl f)
  with assms show ?thesis by (simp add: tls_write_def)
next
  case (Inr s1)
  with assms have "n = result e"
    and "s' = s1\<lparr>calls := calls s1 @ [TlsWrite buf (result e)]\<rparr>"
    by (auto simp: tls_write_def)
  with run_hooks_frame [OF Inr] show ?thesis by simp
qed

lemma tls_read_frame:
  assumes "tls_read e s = Inr (n, s')"
  shows "n = result e \<and> sendBuffer s' = sendBuffer s \<and> isOpen s' = isOpen s \<and>
    upperLayer s' = upperLayer s \<and> dataReceivedDelegate s' = dataReceivedDelegate s \<and>
    brokenDelegate s' = brokenDelegate s \<and> tryRead s' = tryRead s \<and> worker s' = worker s \<and>
    stopWorker s' = stopWorker s"
proof (cases "run_hooks (hooks e) s")
  case (Inl f)
  with assms show ?thesis by (simp add: tls_read_def)
next
  case (Inr s1)
  with assms have "n = result e"
    and "s' = s1\<lparr>receiveBufferDecrypted :=
                     engine_store (plaintext e) (receiveBufferDecrypted s1),
                  calls := calls s1 @ [TlsRead (length (receiveBufferDecrypted s1)) (result e)]\<rparr>"
    by (auto simp: tls_read_def)
  with run_hooks_frame [OF Inr] show ?thesis by simp
qed

lemma write_attempt_idle:
  assumes "\<not> (sendBuffer s \<noteq> [] \<and> canWrite s \<and> isOpen s)"
  shows "write_attempt e s = Inr s"
  using assms by (auto simp: write_attempt_def)

lemma write_attempt_shape:
  assumes "write_attempt e s = Inr s'" and "sendBuffer s \<noteq> [] \<and> canWrite s \<and> isOpen s"
  shows "\<exists>s1. tls_write e (sendBuffer s) s = Inr (result e, s1) \<and>
    ((result e = TLS_WANT_POLLIN \<and> s' = s1\<lparr>canWrite := False\<rparr>) \<or>
     (result e \<noteq> TLS_WANT_POLLIN \<and> result e < 0 \<and> upperLayer s1 \<and>
        s' = s1\<lparr>calls := calls s1 @ [UpperBreak False]\<rparr>) \<or>
     (0 \<le> result e \<and> nat (result e) \<le> length (sendBuffer s) \<and>
        s' = s1\<lparr>sendBuffer := drop (nat (result e)) (sendBuffer s)\<rparr>))"
proof (cases "tls_write e (sendBuffer s) s")
  case (Inl f)
  with assms show ?thesis by (simp add: write_attempt_def)
next
  case (Inr p)
  obtain amount s1 where p: "p = (amount, s1)" by (cases p)
  with Inr have w: "tls_write e (sendBuffer s) s = Inr (amount, s1)" by simp
  from tls_write_frame [OF w] have a: "amount = result e" and b: "sendBuffer s1 = sendBuffer s"
    by simp_all
  have neg: "TLS_WANT_POLLIN < 0" by (simp add: TLS_WANT_POLLIN_def)
  from assms w b neg have
    "(amount = TLS_WANT_POLLIN \<and> s' = s1\<lparr>canWrite := False\<rparr>) \<or>
     (amount \<noteq> TLS_WANT_POLLIN \<and> amount < 0 \<and> upperLayer s1 \<and>
        s' = s1\<lparr>calls := calls s1 @ [UpperBreak False]\<rparr>) \<or>
     (0 \<le> amount \<and> nat amount \<le> length (sendBuffer s) \<and>
        s' = s1\<lparr>sendBuffer := drop (nat amount) (sendBuffer s)\<rparr>)"
    by (simp add: write_attempt_def upperLayer_Break_def split: if_splits)
  with w a show ?thesis by auto
qed

lemma write_attempt_frame:
  assumes "write_attempt e s = Inr s'"
  shows "isOpen s' = isOpen s \<and> upperLayer s' = upperLayer s \<and>
    dataReceivedDelegate s' = dataReceivedDelegate s \<and> brokenDelegate s' = brokenDelegate s \<and>
    tryRead s' = tryRead s \<and> worker s' = worker s \<and> stopWorker s' = stopWorker s"
proof (cases "sendBuffer s \<noteq> [] \<and> canWrite s \<and> isOpen s")
  case False
  with assms show ?thesis by (simp add: write_attempt_idle)
next
  case True
  from write_attempt_shape [OF assms True] obtain s1
    where w: "tls_write e (sendBuffer s) s = Inr (result e, s1)"
      and s': "s' = s1\<lparr>canWrite := False\<rparr> \<or> s' = s1\<lparr>calls := calls s1 @ [UpperBreak False]\<rparr> \<or>
               s' = s1\<lparr>sendBuffer := drop (nat (result e)) (sendBuffer s)\<rparr>"
    by blast
  from s' tls_write_frame [OF w] show ?thesis
    by (elim disjE) simp_all
qed

lemma after_delivery_frame:
  "isOpen (after_delivery s) = isOpen s \<and> upperLayer (after_delivery s) = upperLayer s \<and>
   dataReceivedDelegate (after_delivery s) = dataReceivedDelegate s \<and>
   brokenDelegate (after_delivery s) = brokenDelegate s \<and>
   tryRead (after_delivery s) = tryRead s \<and> stopWorker (after_delivery s) = stopWorker s \<and>
   sendBuffer (after_delivery s) = sendBuffer s \<and>
   receiveBufferSecure (after_delivery s) = receiveBufferSecure s \<and>
   worker (after_delivery s) = Waiting"
  by (simp add: after_delivery_def split: option.splits)

lemma read_attempt_idle:
  assumes "\<not> (receiveBufferSecure s \<noteq> [] \<or> tryRead s)"
  shows "read_attempt e s = Inr (s\<lparr>worker := Waiting\<rparr>)"
  using assms by (auto simp: read_attempt_def)

lemma read_attempt_shape:
  assumes "read_attempt e s = Inr s'" and "receiveBufferSecure s \<noteq> [] \<or> tryRead s"
  shows "\<exists>s1. tls_read e (s\<lparr>tryRead := True, receiveBufferDecrypted :=
                 resize DECRYPTED_BUFFER_SIZE (receiveBufferDecrypted s)\<rparr>) = Inr (result e, s1) \<and>
    (((result e = TLS_WANT_POLLIN \<or> result e = TLS_WANT_POLLOUT) \<and> s' = s1\<lparr>worker := Waiting\<rparr>) \<or>
     (result e \<noteq> TLS_WANT_POLLIN \<and> result e \<noteq> TLS_WANT_POLLOUT \<and> result e < 0 \<and> upperLayer s1 \<and>
        s' = s1\<lparr>calls := calls s1 @ [UpperBreak False], worker := Waiting\<rparr>) \<or>
     (0 < result e \<and> (\<exists>d. dataReceivedDelegate s1 = Some d \<and>
        s' = s1\<lparr>receiveBufferDecrypted := resize (nat (result e)) (receiveBufferDecrypted s1),
                calls := calls s1 @
                  [DataReceived d (resize (nat (result e)) (receiveBufferDecrypted s1))],
                worker := Delivering\<rparr>)) \<or>
     (0 < result e \<and> dataReceivedDelegate s1 = None \<and>
        s' = after_delivery
               (s1\<lparr>receiveBufferDecrypted :=
                     resize (nat (result e)) (receiveBufferDecrypted s1)\<rparr>)) \<or>
     (result e = 0 \<and> s' = s1\<lparr>tryRead := False, worker := Waiting\<rparr>))"
proof (cases "tls_read e (s\<lparr>tryRead := True, receiveBufferDecrypted :=
                 resize DECRYPTED_BUFFER_SIZE (receiveBufferDecrypted s)\<rparr>)")
  case (Inl f)
  with assms show ?thesis by (simp add: read_attempt_def)
next
  case (Inr p)
  obtain amount s1 where p: "p = (amount, s1)" by (cases p)
  with Inr have r: "tls_read e (s\<lparr>tryRead := True, receiveBufferDecrypted :=
                 resize DECRYPTED_BUFFER_SIZE (receiveBufferDecrypted s)\<rparr>) = Inr (amount, s1)"
    by simp
  from tls_read_frame [OF r] have a: "amount = result e" by simp
  have neg: "TLS_WANT_POLLIN < 0" "TLS_WANT_POLLOUT < 0"
    by (simp_all add: TLS_WANT_POLLIN_def TLS_WANT_POLLOUT_def)
  from assms r neg have
    "((amount = TLS_WANT_POLLIN \<or> amount = TLS_WANT_POLLOUT) \<and> s' = s1\<lparr>worker := Waiting\<rparr>) \<or>
     (amount \<noteq> TLS_WANT_POLLIN \<and> amount \<noteq> TLS_WANT_POLLOUT \<and> amount < 0 \<and> upperLayer s1 \<and>
        s' = s1\<lparr>calls := calls s1 @ [UpperBreak False], worker := Waiting\<rparr>) \<or>
     (0 < amount \<and> (\<exists>d. dataReceivedDelegate s1 = Some d \<and>
        s' = s1\<lparr>receiveBufferDecrypted := resize (nat amount) (receiveBufferDecrypted s1),
                calls := calls s1 @
                  [DataReceived d (resize (nat amount) (receiveBufferDecrypted s1))],
                worker := Delivering\<rparr>)) \<or>
     (0 < amount \<and> dataReceivedDelegate s1 = None \<and>
        s' = after_delivery
               (s1\<lparr>receiveBufferDecrypted :=
                     resize (nat amount) (receiveBufferDecrypted s1)\<rparr>)) \<or>
     (amount = 0 \<and> s' = s1\<lparr>tryRead := False, worker := Waiting\<rparr>)"
    by (simp add: read_attempt_def Let_def upperLayer_Break_def split: if_splits option.splits)
  with r a show ?thesis by auto
qed

lemma read_attempt_frame:
  assumes "read_attempt e s = Inr s'"
  shows "isOpen s' = isOpen s \<and> upperLayer s' = upperLayer s \<and>
    dataReceivedDelegate s' = dataReceivedDelegate s \<and> brokenDelegate s' = brokenDelegate s \<and>
    stopWorker s' = stopWorker s \<and> sendBuffer s' = sendBuffer s \<and>
    (worker s' = Waiting \<or> worker s' = Delivering)"
proof (cases "receiveBufferSecure s \<noteq> [] \<or> tryRead s")
  case False
  with assms have "s' = s\<lparr>worker := Waiting\<rparr>" by (simp add: read_attempt_idle)
  then show ?thesis by simp
next
  case True
  let ?s0 = "s\<lparr>tryRead := True,
     receiveBufferDecrypted := resize DECRYPTED_BUFFER_SIZE (receiveBufferDecrypted s)\<rparr>"
  from read_attempt_shape [OF assms True] obtain s1 where r: "tls_read e ?s0 = Inr (result e, s1)"
    and s': "s' = s1\<lparr>worker := Waiting\<rparr> \<or>
       s' = s1\<lparr>calls := calls s1 @ [UpperBreak False], worker := Waiting\<rparr> \<or>
       (\<exists>d. s' = s1\<lparr>receiveBufferDecrypted := resize (nat (result e)) (receiveBufferDecrypted s1),
                calls := calls s1 @
                  [DataReceived d (resize (nat (result e)) (receiveBufferDecrypted s1))],
                worker := Delivering\<rparr>) \<or>
       s' = after_delivery
               (s1\<lparr>receiveBufferDecrypted :=
                     resize (nat (result e)) (receiveBufferDecrypted s1)\<rparr>) \<or>
       s' = s1\<lparr>tryRead := False, worker := Waiting\<rparr>"
    by blast
  from tls_read_frame [OF r] have f: "isOpen s1 = isOpen s" "upperLayer s1 = upperLayer s"
    "dataReceivedDelegate s1 = dataReceivedDelegate s" "brokenDelegate s1 = brokenDelegate s"
    "stopWorker s1 = stopWorker s" "sendBuffer s1 = sendBuffer s"
    by simp_all
  from s' show ?thesis
    by (elim disjE exE) (simp_all add: f after_delivery_frame)
qed

lemma loop_iteration_frame:
  assumes "loop_iteration w r s = Inr s'"
  shows "isOpen s' = isOpen s \<and> upperLayer s' = upperLayer s \<and>
    dataReceivedDelegate s' = dataReceivedDelegate s \<and> brokenDelegate s' = brokenDelegate s \<and>
    stopWorker s' = stopWorker s"
proof (cases "stopWorker s")
  case True
  with assms show ?thesis by (auto simp: loop_iteration_def)
next
  case False
  with assms obtain s1 where w: "write_attempt w s = Inr s1" and r: "read_attempt r s1 = Inr s'"
    by (auto simp: loop_iteration_def split: sum.splits)
  from write_attempt_frame [OF w] read_attempt_frame [OF r] show ?thesis by simp
qed

lemma Worker_frame:
  assumes "Worker w r s = Inr s'"
  shows "isOpen s' = isOpen s \<and> upperLayer s' = upperLayer s \<and>
    dataReceivedDelegate s' = dataReceivedDelegate s \<and> brokenDelegate s' = brokenDelegate s \<and>
    stopWorker s' = stopWorker s"
  using assms after_delivery_frame [of s]
  by (cases "worker s") (auto simp: Worker_def split: if_splits dest: loop_iteration_frame)

lemma step_delegates:
  assumes "step ev s = Inr s'"
  shows "upperLayer s' = upperLayer s \<and>
    dataReceivedDelegate s' = dataReceivedDelegate s \<and> brokenDelegate s' = brokenDelegate s"
proof (cases ev)
  case (WorkerRuns w r)
  with assms have "Worker w r s = Inr s'" by (simp add: step_def)
  from Worker_frame [OF this] show ?thesis by simp
qed (use assms in \<open>auto simp: step_def SecureDataReceived_def SendData_def
      ConnectionBroken_locked_def ConnectionBroken_test_def ConnectionBroken_call_def
      Let_def Break_def upperLayer_Break_def SetDataReceivedDelegate_def SetBrokenDelegate_def
      Destroy_def split: if_splits option.splits\<close>)

lemma run_delegates:
  assumes "run evs s = Inr s'"
  shows "upperLayer s' = upperLayer s \<and>
    dataReceivedDelegate s' = dataReceivedDelegate s \<and> brokenDelegate s' = brokenDelegate s"
  using assms
proof (induction evs arbitrary: s)
  case Nil
  then show ?case by simp
next
  case (Cons ev evs)
  then obtain s1 where e: "step ev s = Inr s1" and es: "run evs s1 = Inr s'"
    by (auto split: sum.splits)
  from Cons.IH [OF es] step_delegates [OF e] show ?case by simp
qed

subsection \<open>One engine call, one attempt\<close>

lemma length_resize: "length (resize n xs) = n"
  by (simp add: resize_def)

lemma tls_write_shape:
  assumes "tls_write e buf s = Inr (n, s')"
  shows "\<exists>s0. run_hooks (hooks e) s = Inr s0 \<and> n = result e \<and>
    s' = s0\<lparr>calls := calls s0 @ [TlsWrite buf (result e)]\<rparr>"
proof (cases "run_hooks (hooks e) s")
  case (Inl f)
  with assms show ?thesis by (simp add: tls_write_def)
next
  case (Inr s0)
  with assms show ?thesis by (auto simp: tls_write_def)
qed

lemma tls_read_shape:
  assumes "tls_read e s = Inr (n, s')"
  shows "\<exists>s0. run_hooks (hooks e) s = Inr s0 \<and> n = result e \<and>
    s' = s0\<lparr>receiveBufferDecrypted := engine_store (plaintext e) (receiveBufferDecrypted s0),
            calls := calls s0 @ [TlsRead (length (receiveBufferDecrypted s0)) (result e)]\<rparr>"
proof (cases "run_hooks (hooks e) s")
  case (Inl f)
  with assms show ?thesis by (simp add: tls_read_def)
next
  case (Inr s0)
  with assms show ?thesis by (auto simp: tls_read_def)
qed

lemma tls_write_returns:
  assumes "upperLayer s"
  shows "\<exists>s'. tls_write e buf s = Inr (result e, s')"
proof -
  from run_hooks_returns [OF assms] obtain s0 where "run_hooks (hooks e) s = Inr s0" ..
  then show ?thesis by (simp add: tls_write_def)
qed

lemma tls_read_returns:
  assumes "upperLayer s"
  shows "\<exists>s'. tls_read e s = Inr (result e, s')"
proof -
  from run_hooks_returns [OF assms] obtain s0 where "run_hooks (hooks e) s = Inr s0" ..
  then show ?thesis by (simp add: tls_read_def)
qed

lemma tls_write_calls:
  assumes "tls_write e buf s = Inr (n, s')"
    and "\<And>n r out. \<not> P (ReadCb n r out)" and "\<And>buf r. \<not> P (WriteCb buf r)"
    and "\<And>buf. \<not> P (UpperSendData buf)"
  shows "filter P (calls s') = filter P (calls s) @ filter P [TlsWrite buf (result e)]"
proof -
  from tls_write_shape [OF assms(1)] obtain s0 where h: "run_hooks (hooks e) s = Inr s0"
    and s': "s' = s0\<lparr>calls := calls s0 @ [TlsWrite buf (result e)]\<rparr>"
    by blast
  from run_hooks_calls [OF h assms(2-4)] s' show ?thesis by simp
qed

lemma tls_read_calls:
  assumes "tls_read e s = Inr (n, s')"
    and "\<And>n r out. \<not> P (ReadCb n r out)" and "\<And>buf r. \<not> P (WriteCb buf r)"
    and "\<And>buf. \<not> P (UpperSendData buf)"
  shows "filter P (calls s') =
    filter P (calls s) @ filter P [TlsRead (length (receiveBufferDecrypted s)) (result e)]"
proof -
  from tls_read_shape [OF assms(1)] obtain s0 where h: "run_hooks (hooks e) s = Inr s0"
    and s': "s' = s0\<lparr>receiveBufferDecrypted :=
                      engine_store (plaintext e) (receiveBufferDecrypted s0),
                    calls := calls s0 @ [TlsRead (length (receiveBufferDecrypted s0)) (result e)]\<rparr>"
    by blast
  from run_hooks_calls [OF h assms(2-4)] run_hooks_frame [OF h] s' show ?thesis by simp
qed

lemma write_attempt_returns:
  assumes "upperLayer s" and "result e \<le> int (length (sendBuffer s))"
  shows "\<exists>s'. write_attempt e s = Inr s'"
proof (cases "sendBuffer s \<noteq> [] \<and> canWrite s \<and> isOpen s")
  case False
  then show ?thesis by (simp add: write_attempt_idle)
next
  case True
  from tls_write_returns [OF assms(1)] obtain s1
    where w: "tls_write e (sendBuffer s) s = Inr (result e, s1)" ..
  from tls_write_frame [OF w] assms have "upperLayer s1" "sendBuffer s1 = sendBuffer s"
    by simp_all
  moreover from assms(2) have "\<not> length (sendBuffer s) < nat (result e)" by linarith
  ultimately show ?thesis using True w
    by (simp add: write_attempt_def upperLayer_Break_def)
qed

lemma read_attempt_returns:
  assumes "upperLayer s"
  shows "\<exists>s'. read_attempt e s = Inr s'"
proof (cases "receiveBufferSecure s \<noteq> [] \<or> tryRead s")
  case False
  then show ?thesis by (simp add: read_attempt_idle)
next
  case True
  let ?s0 = "s\<lparr>tryRead := True,
     receiveBufferDecrypted := resize DECRYPTED_BUFFER_SIZE (receiveBufferDecrypted s)\<rparr>"
  from assms have "upperLayer ?s0" by simp
  from tls_read_returns [OF this] obtain s1 where r: "tls_read e ?s0 = Inr (result e, s1)" ..
  from tls_read_frame [OF r] assms have "upperLayer s1" by simp
  with True r show ?thesis
    by (simp add: read_attempt_def Let_def upperLayer_Break_def split: option.splits)
qed

subsection \<open>The buffers as queues\<close>

lemma encrypted_of_simps:
  "encrypted_of [] = []"
  "encrypted_of (a # xs) = taken_by_engine a @ encrypted_of xs"
  "encrypted_of (xs @ ys) = encrypted_of xs @ encrypted_of ys"
  by (simp_all add: encrypted_of_def)

lemma fed_to_engine_simps:
  "fed_to_engine [] = []"
  "fed_to_engine (a # xs) = copied_to_engine a @ fed_to_engine xs"
  "fed_to_engine (xs @ ys) = fed_to_engine xs @ fed_to_engine ys"
  by (simp_all add: fed_to_engine_def)

lemma run_hooks_streams:
  assumes "run_hooks hs s = Inr s'"
  shows "plain_stream s' = plain_stream s \<and> cipher_stream s' = cipher_stream s"
  using run_hooks_totals [OF assms] run_hooks_frame [OF assms]
  by (simp add: plain_stream_def cipher_stream_def)

lemma after_delivery_streams:
  "plain_stream (after_delivery s) = plain_stream s \<and>
   cipher_stream (after_delivery s) = cipher_stream s"
  by (simp add: after_delivery_def plain_stream_def cipher_stream_def encrypted_of_simps
      fed_to_engine_simps taken_by_engine_def copied_to_engine_def split: option.splits)

lemma write_attempt_streams:
  assumes "write_attempt e s = Inr s'"
  shows "plain_stream s' = plain_stream s \<and> cipher_stream s' = cipher_stream s"
proof (cases "sendBuffer s \<noteq> [] \<and> canWrite s \<and> isOpen s")
  case False
  with assms show ?thesis by (simp add: write_attempt_idle)
next
  case True
  from write_attempt_shape [OF assms True] obtain s1
    where w: "tls_write e (sendBuffer s) s = Inr (result e, s1)"
      and c: "(result e = TLS_WANT_POLLIN \<and> s' = s1\<lparr>canWrite := False\<rparr>) \<or>
     (result e \<noteq> TLS_WANT_POLLIN \<and> result e < 0 \<and> upperLayer s1 \<and>
        s' = s1\<lparr>calls := calls s1 @ [UpperBreak False]\<rparr>) \<or>
     (0 \<le> result e \<and> nat (result e) \<le> length (sendBuffer s) \<and>
        s' = s1\<lparr>sendBuffer := drop (nat (result e)) (sendBuffer s)\<rparr>)"
    by blast
  from tls_write_shape [OF w] obtain s0 where h: "run_hooks (hooks e) s = Inr s0"
    and s1: "s1 = s0\<lparr>calls := calls s0 @ [TlsWrite (sendBuffer s) (result e)]\<rparr>"
    by blast
  from run_hooks_streams [OF h] run_hooks_frame [OF h]
  have p: "encrypted_of (calls s0) @ sendBuffer s = plain_stream s"
    and q: "fed_to_engine (calls s0) @ receiveBufferSecure s0 = cipher_stream s"
    by (simp_all add: plain_stream_def cipher_stream_def)
  have neg: "TLS_WANT_POLLIN < 0" by (simp add: TLS_WANT_POLLIN_def)
  from run_hooks_frame [OF h] have sb: "sendBuffer s0 = sendBuffer s" by simp
  from c show ?thesis
  proof (elim disjE conjE)
    assume "result e = TLS_WANT_POLLIN" and "s' = s1\<lparr>canWrite := False\<rparr>"
    with s1 neg p q sb show ?thesis
      by (simp add: plain_stream_def cipher_stream_def encrypted_of_simps fed_to_engine_simps
          taken_by_engine_def copied_to_engine_def)
  next
    assume "result e < 0" and "s' = s1\<lparr>calls := calls s1 @ [UpperBreak False]\<rparr>"
    with s1 p q sb show ?thesis
      by (simp add: plain_stream_def cipher_stream_def encrypted_of_simps fed_to_engine_simps
          taken_by_engine_def copied_to_engine_def)
  next
    assume "0 \<le> result e"
      and "s' = s1\<lparr>sendBuffer := drop (nat (result e)) (sendBuffer s)\<rparr>"
    with s1 q have "plain_stream s' = encrypted_of (calls s0) @ sendBuffer s"
      and "cipher_stream s' = cipher_stream s"
      by (simp_all add: plain_stream_def cipher_stream_def encrypted_of_simps fed_to_engine_simps
          taken_by_engine_def copied_to_engine_def)
    with p show ?thesis by simp
  qed
qed

lemma tls_read_streams:
  assumes "tls_read e s = Inr (n, s')"
  shows "plain_stream s' = plain_stream s \<and> cipher_stream s' = cipher_stream s"
proof -
  from tls_read_shape [OF assms] obtain s0 where h: "run_hooks (hooks e) s = Inr s0"
    and s': "s' = s0\<lparr>receiveBufferDecrypted :=
                      engine_store (plaintext e) (receiveBufferDecrypted s0),
                    calls := calls s0 @ [TlsRead (length (receiveBufferDecrypted s0)) (result e)]\<rparr>"
    by blast
  from s' have "plain_stream s' = plain_stream s0 \<and> cipher_stream s' = cipher_stream s0"
    by (simp add: plain_stream_def cipher_stream_def encrypted_of_simps fed_to_engine_simps
        taken_by_engine_def copied_to_engine_def)
  with run_hooks_streams [OF h] show ?thesis by simp
qed

lemma read_attempt_streams:
  assumes "read_attempt e s = Inr s'"
  shows "plain_stream s' = plain_stream s \<and> cipher_stream s' = cipher_stream s"
proof (cases "receiveBufferSecure s \<noteq> [] \<or> tryRead s")
  case False
  with assms have "s' = s\<lparr>worker := Waiting\<rparr>" by (simp add: read_attempt_idle)
  then show ?thesis by (simp add: plain_stream_def cipher_stream_def)
next
  case True
  let ?s0 = "s\<lparr>tryRead := True,
     receiveBufferDecrypted := resize DECRYPTED_BUFFER_SIZE (receiveBufferDecrypted s)\<rparr>"
  from read_attempt_shape [OF assms True] obtain s1 where r: "tls_read e ?s0 = Inr (result e, s1)"
    and c: "s' = s1\<lparr>worker := Waiting\<rparr> \<or>
       s' = s1\<lparr>calls := calls s1 @ [UpperBreak False], worker := Waiting\<rparr> \<or>
       (\<exists>d. s' = s1\<lparr>receiveBufferDecrypted := resize (nat (result e)) (receiveBufferDecrypted s1),
                calls := calls s1 @
                  [DataReceived d (resize (nat (result e)) (receiveBufferDecrypted s1))],
                worker := Delivering\<rparr>) \<or>
       s' = after_delivery
               (s1\<lparr>receiveBufferDecrypted :=
                     resize (nat (result e)) (receiveBufferDecrypted s1)\<rparr>) \<or>
       s' = s1\<lparr>tryRead := False, worker := Waiting\<rparr>"
    by blast
  from tls_read_streams [OF r]
  have s1: "plain_stream s1 = plain_stream s \<and> cipher_stream s1 = cipher_stream s"
    by (simp add: plain_stream_def cipher_stream_def)
  let ?s2 = "s1\<lparr>receiveBufferDecrypted := resize (nat (result e)) (receiveBufferDecrypted s1)\<rparr>"
  have s2: "plain_stream ?s2 = plain_stream s1 \<and> cipher_stream ?s2 = cipher_stream s1"
    by (simp add: plain_stream_def cipher_stream_def)
  from c have "plain_stream s' = plain_stream s1 \<and> cipher_stream s' = cipher_stream s1"
  proof (elim disjE exE)
    assume "s' = after_delivery ?s2"
    with after_delivery_streams [of ?s2] s2 show ?thesis by simp
  qed (simp_all add: plain_stream_def cipher_stream_def encrypted_of_simps fed_to_engine_simps
          taken_by_engine_def copied_to_engine_def)
  with s1 show ?thesis by simp
qed

lemma Worker_streams:
  assumes "Worker w r s = Inr s'"
  shows "plain_stream s' = plain_stream s \<and> cipher_stream s' = cipher_stream s"
proof -
  have li: "plain_stream t = plain_stream s \<and> cipher_stream t = cipher_stream s"
    if "loop_iteration w r s = Inr t" for t
  proof (cases "stopWorker s")
    case True
    with that have "t = s\<lparr>worker := Finished\<rparr>" by (simp add: loop_iteration_def)
    then show ?thesis by (simp add: plain_stream_def cipher_stream_def)
  next
    case False
    with that obtain s1 where a: "write_attempt w s = Inr s1" and b: "read_attempt r s1 = Inr t"
      by (auto simp: loop_iteration_def split: sum.splits)
    from write_attempt_streams [OF a] read_attempt_streams [OF b] show ?thesis by simp
  qed
  from assms li after_delivery_streams [of s] show ?thesis
    by (cases "worker s") (auto simp: Worker_def split: if_splits)
qed

lemma step_streams:
  assumes "step ev s = Inr s'"
  shows "plain_stream s' = plain_stream s @ submitted_by ev \<and>
    cipher_stream s' = cipher_stream s @ delivered_by ev"
proof (cases ev)
  case (WorkerRuns w r)
  with assms have "Worker w r s = Inr s'" by (simp add: step_def)
  from Worker_streams [OF this] WorkerRuns show ?thesis
    by (simp add: submitted_by_def delivered_by_def)
qed (use assms in \<open>auto simp: step_def SecureDataReceived_def SendData_def
      ConnectionBroken_locked_def ConnectionBroken_test_def ConnectionBroken_call_def
      Let_def Break_def upperLayer_Break_def SetDataReceivedDelegate_def SetBrokenDelegate_def
      Destroy_def plain_stream_def cipher_stream_def encrypted_of_simps fed_to_engine_simps
      taken_by_engine_def copied_to_engine_def submitted_by_def delivered_by_def
      split: if_splits option.splits\<close>)

lemma run_streams:
  assumes "run evs s = Inr s'"
  shows "plain_stream s' = plain_stream s @ submitted evs \<and>
    cipher_stream s' = cipher_stream s @ delivered evs"
  using assms
proof (induction evs arbitrary: s)
  case Nil
  then show ?case by (simp add: submitted_def delivered_def)
next
  case (Cons ev evs)
  then obtain s1 where e: "step ev s = Inr s1" and es: "run evs s1 = Inr s'"
    by (auto split: sum.splits)
  from Cons.IH [OF es] step_streams [OF e] show ?case
    by (simp add: submitted_def delivered_def)
qed

subsection \<open>Invocations of \<^verbatim>\<open>brokenDelegate_\<close>\<close>

lemma write_attempt_broken_count:
  assumes "write_attempt e s = Inr s'"
  shows "broken_count s' = broken_count s"
proof (cases "sendBuffer s \<noteq> [] \<and> canWrite s \<and> isOpen s")
  case False
  with assms show ?thesis by (simp add: write_attempt_idle)
next
  case True
  from write_attempt_shape [OF assms True] obtain s1
    where w: "tls_write e (sendBuffer s) s = Inr (result e, s1)"
      and c: "s' = s1\<lparr>canWrite := False\<rparr> \<or> s' = s1\<lparr>calls := calls s1 @ [UpperBreak False]\<rparr> \<or>
               s' = s1\<lparr>sendBuffer := drop (nat (result e)) (sendBuffer s)\<rparr>"
    by blast
  have "broken_count s1 = broken_count s"
    using tls_write_calls [OF w, of is_Broken] by (simp add: broken_count_def is_Broken_def)
  with c show ?thesis
    by (elim disjE) (simp_all add: broken_count_def is_Broken_def)
qed

lemma after_delivery_broken:
  "broken_count (after_delivery s) \<le> Suc (broken_count s) \<and>
   (broken_count (after_delivery s) \<noteq> broken_count s \<longrightarrow>
      receiveBufferSecure (after_delivery s) = [] \<and> \<not> isOpen (after_delivery s))"
  by (simp add: after_delivery_def broken_count_def is_Broken_def split: option.splits)

lemma read_attempt_broken:
  assumes "read_attempt e s = Inr s'"
  shows "broken_count s' \<le> Suc (broken_count s) \<and>
   (broken_count s' \<noteq> broken_count s \<longrightarrow> receiveBufferSecure s' = [] \<and> \<not> isOpen s')"
proof (cases "receiveBufferSecure s \<noteq> [] \<or> tryRead s")
  case False
  with assms have "s' = s\<lparr>worker := Waiting\<rparr>" by (simp add: read_attempt_idle)
  then show ?thesis by (simp add: broken_count_def)
next
  case True
  let ?s0 = "s\<lparr>tryRead := True,
     receiveBufferDecrypted := resize DECRYPTED_BUFFER_SIZE (receiveBufferDecrypted s)\<rparr>"
  from read_attempt_shape [OF assms True] obtain s1 where r: "tls_read e ?s0 = Inr (result e, s1)"
    and c: "s' = s1\<lparr>worker := Waiting\<rparr> \<or>
       s' = s1\<lparr>calls := calls s1 @ [UpperBreak False], worker := Waiting\<rparr> \<or>
       (\<exists>d. s' = s1\<lparr>receiveBufferDecrypted := resize (nat (result e)) (receiveBufferDecrypted s1),
                calls := calls s1 @
                  [DataReceived d (resize (nat (result e)) (receiveBufferDecrypted s1))],
                worker := Delivering\<rparr>) \<or>
       s' = after_delivery
               (s1\<lparr>receiveBufferDecrypted :=
                     resize (nat (result e)) (receiveBufferDecrypted s1)\<rparr>) \<or>
       s' = s1\<lparr>tryRead := False, worker := Waiting\<rparr>"
    by blast
  have s1: "broken_count s1 = broken_count s"
    using tls_read_calls [OF r, of is_Broken] by (simp add: broken_count_def is_Broken_def)
  let ?s2 = "s1\<lparr>receiveBufferDecrypted := resize (nat (result e)) (receiveBufferDecrypted s1)\<rparr>"
  have s2: "broken_count ?s2 = broken_count s" using s1 by (simp add: broken_count_def)
  from c show ?thesis
  proof (elim disjE exE)
    assume "s' = after_delivery ?s2"
    with after_delivery_broken [of ?s2] s2 show ?thesis by simp
  qed (use s1 in \<open>simp_all add: broken_count_def is_Broken_def\<close>)
qed

lemma Worker_broken:
  assumes "Worker w r s = Inr s'"
  shows "broken_count s' \<le> Suc (broken_count s) \<and>
   (broken_count s' \<noteq> broken_count s \<longrightarrow> receiveBufferSecure s' = [] \<and> \<not> isOpen s')"
proof -
  have li: "broken_count t \<le> Suc (broken_count s) \<and>
     (broken_count t \<noteq> broken_count s \<longrightarrow> receiveBufferSecure t = [] \<and> \<not> isOpen t)"
    if "loop_iteration w r s = Inr t" for t
  proof (cases "stopWorker s")
    case True
    with that have "t = s\<lparr>worker := Finished\<rparr>" by (simp add: loop_iteration_def)
    then show ?thesis by (simp add: broken_count_def)
  next
    case False
    with that obtain s1 where a: "write_attempt w s = Inr s1" and b: "read_attempt r s1 = Inr t"
      by (auto simp: loop_iteration_def split: sum.splits)
    from write_attempt_broken_count [OF a] read_attempt_broken [OF b] show ?thesis by simp
  qed
  from assms li after_delivery_broken [of s] show ?thesis
    by (cases "worker s") (auto simp: Worker_def split: if_splits)
qed

text \<open>The two sites, each on its own: an uninterrupted run of the handler calls the
  delegate exactly when the buffer is empty, and the worker calls it after a delivery
  exactly when the buffer is empty and \<^verbatim>\<open>open_\<close> is false.\<close>

lemma immediate_site_exact:
  assumes "notifying s = 0" and "firing s = 0"
  shows "calls (ConnectionBroken s) =
    calls s @ (if receiveBufferSecure s = [] then
                 (case brokenDelegate s of Some d \<Rightarrow> [Broken d False] | None \<Rightarrow> [])
               else [])"
  using assms
  by (simp add: ConnectionBroken_def ConnectionBroken_locked_def ConnectionBroken_test_def
      ConnectionBroken_call_def Let_def split: option.splits)

lemma post_decrypt_site_exact:
  "calls (after_delivery s) =
    calls s @ (if receiveBufferSecure s = [] \<and> \<not> isOpen s then
                 (case brokenDelegate s of Some d \<Rightarrow> [Broken d False] | None \<Rightarrow> [])
               else [])"
  by (simp add: after_delivery_def split: option.splits)

subsection \<open>Failure of the engine's set-up, and unfolding the scenarios\<close>

lemma Connect_fails_with_engine:
  assumes "tls_configure lib \<noteq> 0 \<or> tls_connect_cbs lib \<noteq> 0"
  shows "TlsDecorator_Connect lib upper host port dataReceived broken = None"
  using assms
  by (auto simp: TlsDecorator_Connect_def Connect_def Let_def TlsConnectionDecorator_def)

lemmas scenario_defs = step_def SecureDataReceived_def SendData_def Destroy_def Worker_def
  loop_iteration_def write_attempt_def read_attempt_def tls_read_def tls_write_def run_hook_def
  read_cb_def write_cb_def engine_store_def resize_def DECRYPTED_BUFFER_SIZE_def
  TLS_WANT_POLLIN_def TLS_WANT_POLLOUT_def ConnectionBroken_def ConnectionBroken_locked_def
  ConnectionBroken_test_def ConnectionBroken_call_def after_delivery_def
  wake_predicate_def upperLayer_Break_def starved_def decrypts_one_def sees_close_def
  accepts_two_def refuses_def starts_handshake_def needs_more_def connected_def

section \<open>The claims\<close>

text \<open>
  C1 (the claim: in every connection lifetime \<^verbatim>\<open>onBroken\<close> is invoked exactly once, and
  only with \<^verbatim>\<open>receiveBufferSecure_\<close> empty). The code tries to give one notification
  through two guarded sites, the handler's when the buffer is empty at the break and the
  worker's after it has delivered what was buffered, and misses in both directions. In
  the first lifetime below the raw connection breaks while the worker is inside the
  data-received delegate with the buffer empty: the handler calls the broken delegate,
  and the worker calls it again when the data-received delegate returns. In the second
  a record is buffered at the break, the worker reads and delivers it before the handler
  has made its test, and again both sites call. In the third the peer's closing record
  is buffered at the break and the handler returns without calling; the read that
  consumes the buffer returns 0, a result after which the worker makes no test, and the
  delegate is never called. Every lifetime ends with the handler returned, the
  destructor run and the worker finished.
\<close>

theorem onBroken_not_exactly_once:
  "map_sum id broken_count (run break_during_delivery connected) = Inr 2 \<and>
   map_sum id broken_count (run break_tested_after_read connected) = Inr 2 \<and>
   map_sum id broken_count (run break_before_close_is_read connected) = Inr 0 \<and>
   map_sum id worker (run break_during_delivery connected) = Inr Finished \<and>
   map_sum id worker (run break_tested_after_read connected) = Inr Finished \<and>
   map_sum id worker (run break_before_close_is_read connected) = Inr Finished \<and>
   map_sum id notifying (run break_during_delivery connected) = Inr 0 \<and>
   map_sum id notifying (run break_tested_after_read connected) = Inr 0 \<and>
   map_sum id notifying (run break_before_close_is_read connected) = Inr 0 \<and>
   map_sum id firing (run break_during_delivery connected) = Inr 0 \<and>
   map_sum id firing (run break_tested_after_read connected) = Inr 0 \<and>
   map_sum id firing (run break_before_close_is_read connected) = Inr 0 \<and>
   map_sum id isOpen (run break_before_close_is_read connected) = Inr False \<and>
   map_sum id receiveBufferSecure (run break_before_close_is_read connected) = Inr []"
  by (simp add: break_during_delivery_def break_tested_after_read_def
      break_before_close_is_read_def scenario_defs broken_count_def is_Broken_def)

text \<open>
  C2 (the claim: when the start of the handshake fails or the wrapped transport's
  \<^verbatim>\<open>Connect\<close> fails, \<^verbatim>\<open>TlsDecorator::Connect\<close> returns a null connection and creates no
  worker). The code checks the engine's set-up only. When the wrapped transport returns
  \<^verbatim>\<open>nullptr\<close> and the engine's set-up succeeds, \<^verbatim>\<open>TlsDecorator::Connect\<close> returns a
  connection whose \<^verbatim>\<open>upperLayer_\<close> is null and whose worker has been started; the
  worker's first \<^verbatim>\<open>tls_read\<close> makes the engine emit the opening handshake record, and the
  write hook calls \<^verbatim>\<open>SendData\<close> through the null pointer.
\<close>

theorem Connect_with_failed_transport:
  "TlsDecorator_Connect working_library False ''example.org'' 443 (Some 1) (Some 2) =
     Some (connected\<lparr>upperLayer := False\<rparr>) \<and>
   worker (connected\<lparr>upperLayer := False\<rparr>) = Ready \<and>
   Worker starved starts_handshake (connected\<lparr>upperLayer := False\<rparr>) = Inl NullUpperLayer"
  by (simp add: TlsDecorator_Connect_def Connect_def Let_def TlsConnectionDecorator_def
      tls_config_insecure_noverifycert_def tls_config_insecure_noverifyname_def
      tls_config_set_protocols_def working_library_def scenario_defs)

text \<open>
  C3: with a raw connection present and an engine that reports no more bytes taken than
  it was given, the write attempt of a worker cycle returns, and: it calls \<^verbatim>\<open>tls_write\<close>
  only if \<^verbatim>\<open>sendBuffer_\<close> is non-empty and \<^verbatim>\<open>canWrite_\<close> and \<^verbatim>\<open>open_\<close> hold, and otherwise
  changes nothing; the call is made once, with the whole of \<^verbatim>\<open>sendBuffer_\<close>; the result
  \<^verbatim>\<open>TLS_WANT_POLLIN\<close> clears \<^verbatim>\<open>canWrite_\<close> and leaves \<^verbatim>\<open>sendBuffer_\<close> as it was; a result
  \<open>n \<ge> 0\<close> removes exactly the first \<open>n\<close> bytes of \<^verbatim>\<open>sendBuffer_\<close> and keeps the rest in
  order; a negative result that is neither sentinel makes one call
  \<^verbatim>\<open>upperLayer_->Break(false)\<close>.
\<close>

theorem write_attempt_contract:
  assumes "upperLayer s" and "result e \<le> int (length (sendBuffer s))"
  shows "\<exists>s'. write_attempt e s = Inr s' \<and>
    (if sendBuffer s \<noteq> [] \<and> canWrite s \<and> isOpen s then
       filter is_TlsWrite (calls s') =
         filter is_TlsWrite (calls s) @ [TlsWrite (sendBuffer s) (result e)] \<and>
       (result e = TLS_WANT_POLLIN \<longrightarrow> \<not> canWrite s' \<and> sendBuffer s' = sendBuffer s) \<and>
       (0 \<le> result e \<longrightarrow>
          sendBuffer s' = drop (nat (result e)) (sendBuffer s) \<and>
          take (nat (result e)) (sendBuffer s) @ sendBuffer s' = sendBuffer s) \<and>
       (result e < 0 \<and> result e \<noteq> TLS_WANT_POLLIN \<and> result e \<noteq> TLS_WANT_POLLOUT \<longrightarrow>
          filter is_UpperBreak (calls s') = filter is_UpperBreak (calls s) @ [UpperBreak False])
     else s' = s)"
proof (cases "sendBuffer s \<noteq> [] \<and> canWrite s \<and> isOpen s")
  case False
  then show ?thesis by (simp add: write_attempt_idle)
next
  case True
  from write_attempt_returns [OF assms] obtain s' where s': "write_attempt e s = Inr s'" ..
  from write_attempt_shape [OF s' True] obtain s1
    where w: "tls_write e (sendBuffer s) s = Inr (result e, s1)"
      and c: "(result e = TLS_WANT_POLLIN \<and> s' = s1\<lparr>canWrite := False\<rparr>) \<or>
     (result e \<noteq> TLS_WANT_POLLIN \<and> result e < 0 \<and> upperLayer s1 \<and>
        s' = s1\<lparr>calls := calls s1 @ [UpperBreak False]\<rparr>) \<or>
     (0 \<le> result e \<and> nat (result e) \<le> length (sendBuffer s) \<and>
        s' = s1\<lparr>sendBuffer := drop (nat (result e)) (sendBuffer s)\<rparr>)"
    by blast
  have neg: "TLS_WANT_POLLIN < 0" by (simp add: TLS_WANT_POLLIN_def)
  from tls_write_frame [OF w] have sb: "sendBuffer s1 = sendBuffer s" by simp
  have tw: "filter is_TlsWrite (calls s1) =
      filter is_TlsWrite (calls s) @ [TlsWrite (sendBuffer s) (result e)]"
    using tls_write_calls [OF w, of is_TlsWrite] by (simp add: is_TlsWrite_def)
  have ub: "filter is_UpperBreak (calls s1) = filter is_UpperBreak (calls s)"
    using tls_write_calls [OF w, of is_UpperBreak] by (simp add: is_UpperBreak_def)
  from c have 1: "filter is_TlsWrite (calls s') =
      filter is_TlsWrite (calls s) @ [TlsWrite (sendBuffer s) (result e)]"
    using tw by (elim disjE) (simp_all add: is_TlsWrite_def)
  from c neg have 2: "result e = TLS_WANT_POLLIN \<longrightarrow> \<not> canWrite s' \<and> sendBuffer s' = sendBuffer s"
    using sb by (elim disjE) simp_all
  from c neg have 3: "0 \<le> result e \<longrightarrow>
          sendBuffer s' = drop (nat (result e)) (sendBuffer s) \<and>
          take (nat (result e)) (sendBuffer s) @ sendBuffer s' = sendBuffer s"
    by (elim disjE) simp_all
  from c have 4: "result e < 0 \<and> result e \<noteq> TLS_WANT_POLLIN \<and> result e \<noteq> TLS_WANT_POLLOUT \<longrightarrow>
          filter is_UpperBreak (calls s') = filter is_UpperBreak (calls s) @ [UpperBreak False]"
    using ub by (elim disjE) (simp_all add: is_UpperBreak_def)
  from s' True 1 2 3 4 show ?thesis by simp
qed

text \<open>
  C3, at concrete inputs: three bytes are queued; an engine that takes two leaves the
  third; an engine that would block on reading clears \<^verbatim>\<open>canWrite_\<close>; an engine that fails
  causes the non-clean break; and with nothing queued nothing happens.
\<close>

theorem write_attempt_contract_witness:
  "map_sum id sendBuffer (write_attempt accepts_two (SendData [1, 2, 3] connected)) = Inr [3] \<and>
   map_sum id canWrite (write_attempt starved (SendData [1, 2, 3] connected)) = Inr False \<and>
   map_sum id (\<lambda>s. filter is_UpperBreak (calls s))
     (write_attempt refuses (SendData [1, 2, 3] connected)) = Inr [UpperBreak False] \<and>
   map_sum id (\<lambda>s. filter is_TlsWrite (calls s))
     (write_attempt accepts_two (SendData [1, 2, 3] connected)) = Inr [TlsWrite [1, 2, 3] 2] \<and>
   write_attempt starved connected = Inr connected"
proof -
  have s: "upperLayer (SendData [1, 2, 3] connected)" "canWrite (SendData [1, 2, 3] connected)"
    "isOpen (SendData [1, 2, 3] connected)" "sendBuffer (SendData [1, 2, 3] connected) = [1, 2, 3]"
    "calls (SendData [1, 2, 3] connected) = []"
    "upperLayer connected" "sendBuffer connected = []"
    by (simp_all add: SendData_def connected_def)
  have e: "result accepts_two = 2" "result starved = TLS_WANT_POLLIN" "result refuses = - 1"
    by (simp_all add: accepts_two_def starved_def refuses_def)
  have n: "TLS_WANT_POLLIN = - 2" "TLS_WANT_POLLOUT = - 3"
    by (simp_all add: TLS_WANT_POLLIN_def TLS_WANT_POLLOUT_def)
  from write_attempt_contract [of "SendData [1, 2, 3] connected" accepts_two]
    write_attempt_contract [of "SendData [1, 2, 3] connected" starved]
    write_attempt_contract [of "SendData [1, 2, 3] connected" refuses]
    write_attempt_contract [of connected starved]
  show ?thesis
    by (auto simp: s e n)
qed

text \<open>
  C4 (as stated: whenever \<^verbatim>\<open>receiveBufferSecure_\<close> is non-empty the read hook returns
  \<open>min B buffered\<close> bytes). For a request of \<open>B = 0\<close> bytes on an open connection with
  one byte buffered the hook returns \<^verbatim>\<open>TLS_WANT_POLLIN\<close>, not 0: the guard tests the
  amount to copy, not the buffer.
\<close>

theorem read_hook_zero_request:
  "receiveBufferSecure (SecureDataReceived [23] connected) \<noteq> [] \<and>
   fst (read_cb 0 (SecureDataReceived [23] connected)) = TLS_WANT_POLLIN \<and>
   TLS_WANT_POLLIN \<noteq> int (min 0 (length (receiveBufferSecure (SecureDataReceived [23] connected))))"
  by (simp add: read_cb_def SecureDataReceived_def connected_def TLS_WANT_POLLIN_def)

text \<open>
  C4 (amended): for every request of up to \<open>B\<close> bytes: if \<^verbatim>\<open>receiveBufferSecure_\<close> is
  non-empty and either \<open>B > 0\<close> or the connection is closed, the hook returns
  \<open>min B buffered\<close>, copies out that prefix and removes exactly it from the buffer (and
  sets \<^verbatim>\<open>canWrite_\<close>); if the buffer is empty or \<open>B = 0\<close>, and the connection is open, it
  returns the would-block sentinel and leaves the state unchanged; if the buffer is
  empty and the connection is closed, it returns 0.
\<close>

theorem read_hook_cases:
  "(receiveBufferSecure s \<noteq> [] \<and> (0 < B \<or> \<not> isOpen s) \<longrightarrow>
      read_cb B s =
        (int (min B (length (receiveBufferSecure s))),
         take (min B (length (receiveBufferSecure s))) (receiveBufferSecure s),
         s\<lparr>canWrite := True,
           receiveBufferSecure :=
             drop (min B (length (receiveBufferSecure s))) (receiveBufferSecure s)\<rparr>)) \<and>
   ((receiveBufferSecure s = [] \<or> B = 0) \<and> isOpen s \<longrightarrow>
      read_cb B s = (TLS_WANT_POLLIN, [], s)) \<and>
   (receiveBufferSecure s = [] \<and> \<not> isOpen s \<longrightarrow>
      read_cb B s = (0, [], s\<lparr>canWrite := True, receiveBufferSecure := []\<rparr>))"
  by (auto simp: read_cb_def Let_def min_def)

text \<open>
  C4 (amended), at concrete inputs: two of three buffered bytes are requested; five bytes
  are requested from an empty buffer on an open connection, and on a closed one.
\<close>

theorem read_hook_cases_witness:
  "read_cb 2 (SecureDataReceived [23, 3, 3] connected) =
     (2, [23, 3], (SecureDataReceived [23, 3, 3] connected)\<lparr>canWrite := True, receiveBufferSecure := [3]\<rparr>) \<and>
   read_cb 5 connected = (TLS_WANT_POLLIN, [], connected) \<and>
   read_cb 5 (ConnectionBroken connected) =
     (0, [], (ConnectionBroken connected)\<lparr>canWrite := True, receiveBufferSecure := []\<rparr>)"
proof -
  have a: "receiveBufferSecure (SecureDataReceived [23, 3, 3] connected) = [23, 3, 3]"
    by (simp add: SecureDataReceived_def connected_def)
  have b: "receiveBufferSecure connected = [] \<and> isOpen connected"
    by (simp add: connected_def)
  have c: "receiveBufferSecure (ConnectionBroken connected) = [] \<and>
      \<not> isOpen (ConnectionBroken connected)"
    by (simp add: ConnectionBroken_def ConnectionBroken_locked_def ConnectionBroken_test_def
        ConnectionBroken_call_def connected_def)
  from read_hook_cases [of "SecureDataReceived [23, 3, 3] connected" 2]
    read_hook_cases [of connected 5] read_hook_cases [of "ConnectionBroken connected" 5] a b c
  show ?thesis by simp
qed

text \<open>
  C5: a worker in \<^verbatim>\<open>wakeCondition_.wait\<close> stays there, changing nothing, as long as
  \<^verbatim>\<open>stopWorker_\<close> is false, \<^verbatim>\<open>receiveBufferSecure_\<close> is empty and not (\<^verbatim>\<open>sendBuffer_\<close>
  non-empty and \<^verbatim>\<open>canWrite_\<close>); as soon as one of the three holds it goes on to the next
  loop test. Every cycle ends in that wait, directly or after the delivery of plaintext.
\<close>

theorem worker_waits_for_wake_predicate:
  "(worker s = Waiting \<and>
      \<not> (stopWorker s \<or> receiveBufferSecure s \<noteq> [] \<or> (sendBuffer s \<noteq> [] \<and> canWrite s)) \<longrightarrow>
        Worker w r s = Inr s) \<and>
   (worker s = Waiting \<and>
      (stopWorker s \<or> receiveBufferSecure s \<noteq> [] \<or> (sendBuffer s \<noteq> [] \<and> canWrite s)) \<longrightarrow>
        Worker w r s = loop_iteration w r s) \<and>
   (\<not> stopWorker s \<and> loop_iteration w r s = Inr s' \<longrightarrow>
        worker s' = Waiting \<or> worker s' = Delivering) \<and>
   (worker s = Delivering \<longrightarrow>
        Worker w r s = Inr (after_delivery s) \<and> worker (after_delivery s) = Waiting)"
proof -
  have "worker s' = Waiting \<or> worker s' = Delivering"
    if "\<not> stopWorker s" and "loop_iteration w r s = Inr s'"
  proof -
    from that obtain s1 where "read_attempt r s1 = Inr s'"
      by (auto simp: loop_iteration_def split: sum.splits)
    from read_attempt_frame [OF this] show ?thesis by simp
  qed
  then show ?thesis
    by (auto simp: Worker_def wake_predicate_def after_delivery_frame)
qed

text \<open>
  C5, at concrete inputs: a waiting worker with empty buffers stays; with three bytes
  queued it runs a cycle; the first cycle of a fresh connection ends in the wait; a
  worker that returns from the delegate enters the wait.
\<close>

theorem worker_waits_for_wake_predicate_witness:
  "Worker accepts_two starved (connected\<lparr>worker := Waiting\<rparr>) = Inr (connected\<lparr>worker := Waiting\<rparr>) \<and>
   Worker accepts_two starved (SendData [1, 2, 3] (connected\<lparr>worker := Waiting\<rparr>)) =
     loop_iteration accepts_two starved (SendData [1, 2, 3] (connected\<lparr>worker := Waiting\<rparr>)) \<and>
   map_sum id worker (loop_iteration accepts_two starved connected) = Inr Waiting \<and>
   Worker accepts_two starved (connected\<lparr>worker := Delivering\<rparr>) =
     Inr (after_delivery (connected\<lparr>worker := Delivering\<rparr>)) \<and>
   worker (after_delivery (connected\<lparr>worker := Delivering\<rparr>)) = Waiting"
proof -
  have a: "worker (connected\<lparr>worker := Waiting\<rparr>) = Waiting"
    "\<not> stopWorker (connected\<lparr>worker := Waiting\<rparr>)"
    "receiveBufferSecure (connected\<lparr>worker := Waiting\<rparr>) = []"
    "sendBuffer (connected\<lparr>worker := Waiting\<rparr>) = []"
    by (simp_all add: connected_def)
  have b: "worker (SendData [1, 2, 3] (connected\<lparr>worker := Waiting\<rparr>)) = Waiting"
    "sendBuffer (SendData [1, 2, 3] (connected\<lparr>worker := Waiting\<rparr>)) = [1, 2, 3]"
    "canWrite (SendData [1, 2, 3] (connected\<lparr>worker := Waiting\<rparr>))"
    by (simp_all add: SendData_def connected_def)
  have c: "\<not> stopWorker connected" by (simp add: connected_def)
  have "\<exists>s'. loop_iteration accepts_two starved connected = Inr s' \<and> worker s' = Waiting"
    by (simp add: scenario_defs)
  then obtain s' where d: "loop_iteration accepts_two starved connected = Inr s'"
    and d': "worker s' = Waiting" by blast
  from worker_waits_for_wake_predicate [of "connected\<lparr>worker := Waiting\<rparr>" accepts_two starved]
    worker_waits_for_wake_predicate [of "SendData [1, 2, 3] (connected\<lparr>worker := Waiting\<rparr>)"
      accepts_two starved]
    worker_waits_for_wake_predicate [of connected accepts_two starved s']
    worker_waits_for_wake_predicate [of "connected\<lparr>worker := Delivering\<rparr>" accepts_two starved]
    a b c d d'
  show ?thesis by simp
qed

text \<open>
  C6 (as stated: would-block results neither set nor clear the keep-trying flag). After
  the peer's closing record has been read the flag is clear; a byte arrives; the next
  read is attempted because of the buffered byte and would block, and the flag is set
  afterwards.
\<close>

theorem would_block_sets_tryRead:
  "map_sum id tryRead (run byte_after_close connected) = Inr False \<and>
   map_sum id receiveBufferSecure (run byte_after_close connected) = Inr [23] \<and>
   result needs_more = TLS_WANT_POLLIN \<and>
   map_sum id tryRead (run (byte_after_close @ [WorkerRuns starved needs_more]) connected) =
     Inr True"
  by (simp add: byte_after_close_def scenario_defs)

text \<open>
  C6 (amended): with a raw connection present the read attempt of a worker cycle
  returns; \<^verbatim>\<open>tls_read\<close> is called, once and with the whole scratch buffer, exactly when
  \<^verbatim>\<open>receiveBufferSecure_\<close> is non-empty or the keep-trying flag is set; and after an
  attempt the flag is set unless the read returned exactly 0: it is set after a read of
  more than 0 bytes, after a would-block result and after a failure, and cleared after a
  read of 0 bytes. Without an attempt only the worker's position changes.
\<close>

theorem read_attempt_contract:
  assumes "upperLayer s"
  shows "\<exists>s'. read_attempt e s = Inr s' \<and>
    (if receiveBufferSecure s \<noteq> [] \<or> tryRead s then
       filter is_TlsRead (calls s') =
         filter is_TlsRead (calls s) @ [TlsRead DECRYPTED_BUFFER_SIZE (result e)] \<and>
       tryRead s' = (result e \<noteq> 0)
     else s' = s\<lparr>worker := Waiting\<rparr>)"
proof (cases "receiveBufferSecure s \<noteq> [] \<or> tryRead s")
  case False
  then show ?thesis by (simp add: read_attempt_idle)
next
  case True
  let ?s0 = "s\<lparr>tryRead := True,
     receiveBufferDecrypted := resize DECRYPTED_BUFFER_SIZE (receiveBufferDecrypted s)\<rparr>"
  let ?P = "\<lambda>s'. filter is_TlsRead (calls s') =
         filter is_TlsRead (calls s) @ [TlsRead DECRYPTED_BUFFER_SIZE (result e)] \<and>
       tryRead s' = (result e \<noteq> 0)"
  from read_attempt_returns [OF assms] obtain s' where s': "read_attempt e s = Inr s'" ..
  from read_attempt_shape [OF s' True] obtain s1 where r: "tls_read e ?s0 = Inr (result e, s1)"
    and c: "((result e = TLS_WANT_POLLIN \<or> result e = TLS_WANT_POLLOUT) \<and> s' = s1\<lparr>worker := Waiting\<rparr>) \<or>
     (result e \<noteq> TLS_WANT_POLLIN \<and> result e \<noteq> TLS_WANT_POLLOUT \<and> result e < 0 \<and> upperLayer s1 \<and>
        s' = s1\<lparr>calls := calls s1 @ [UpperBreak False], worker := Waiting\<rparr>) \<or>
     (0 < result e \<and> (\<exists>d. dataReceivedDelegate s1 = Some d \<and>
        s' = s1\<lparr>receiveBufferDecrypted := resize (nat (result e)) (receiveBufferDecrypted s1),
                calls := calls s1 @
                  [DataReceived d (resize (nat (result e)) (receiveBufferDecrypted s1))],
                worker := Delivering\<rparr>)) \<or>
     (0 < result e \<and> dataReceivedDelegate s1 = None \<and>
        s' = after_delivery
               (s1\<lparr>receiveBufferDecrypted :=
                     resize (nat (result e)) (receiveBufferDecrypted s1)\<rparr>)) \<or>
     (result e = 0 \<and> s' = s1\<lparr>tryRead := False, worker := Waiting\<rparr>)"
    by blast
  have neg: "TLS_WANT_POLLIN \<noteq> 0" "TLS_WANT_POLLOUT \<noteq> 0"
    by (simp_all add: TLS_WANT_POLLIN_def TLS_WANT_POLLOUT_def)
  from tls_read_frame [OF r] have tr: "tryRead s1" by simp
  have rd: "filter is_TlsRead (calls s1) =
      filter is_TlsRead (calls s) @ [TlsRead DECRYPTED_BUFFER_SIZE (result e)]"
    using tls_read_calls [OF r, of is_TlsRead] by (simp add: is_TlsRead_def length_resize)
  have ad: "filter is_TlsRead (calls (after_delivery t)) = filter is_TlsRead (calls t) \<and>
      tryRead (after_delivery t) = tryRead t" for t
    by (simp add: after_delivery_def is_TlsRead_def split: option.splits)
  from c have "?P s'"
  proof (elim disjE exE conjE)
    assume "s' = after_delivery
               (s1\<lparr>receiveBufferDecrypted :=
                     resize (nat (result e)) (receiveBufferDecrypted s1)\<rparr>)" and "0 < result e"
    with rd tr ad show ?thesis by simp
  qed (use rd tr neg in \<open>simp_all add: is_TlsRead_def\<close>)
  with s' True show ?thesis by simp
qed

text \<open>
  C6 (amended), at concrete inputs: a read of one byte, a read of 0 bytes, a read that
  would block, and a cycle with an empty buffer and the flag clear.
\<close>

theorem read_attempt_contract_witness:
  "map_sum id tryRead (read_attempt decrypts_one (SecureDataReceived [23, 3, 3] connected)) = Inr True \<and>
   map_sum id tryRead (read_attempt sees_close (SecureDataReceived [21, 3, 3] connected)) = Inr False \<and>
   map_sum id tryRead (read_attempt starved connected) = Inr True \<and>
   map_sum id (\<lambda>s. filter is_TlsRead (calls s)) (read_attempt starved connected) =
     Inr [TlsRead 65536 (- 2)] \<and>
   read_attempt starved (connected\<lparr>tryRead := False\<rparr>) =
     Inr (connected\<lparr>tryRead := False, worker := Waiting\<rparr>)"
proof -
  have s: "upperLayer (SecureDataReceived [23, 3, 3] connected)"
    "receiveBufferSecure (SecureDataReceived [23, 3, 3] connected) = [23, 3, 3]"
    "calls (SecureDataReceived [23, 3, 3] connected) = []"
    "upperLayer (SecureDataReceived [21, 3, 3] connected)"
    "receiveBufferSecure (SecureDataReceived [21, 3, 3] connected) = [21, 3, 3]"
    "upperLayer connected" "receiveBufferSecure connected = []" "tryRead connected"
    "calls connected = []"
    by (simp_all add: SecureDataReceived_def connected_def)
  have e: "result decrypts_one = 1" "result sees_close = 0" "result starved = - 2"
    by (simp_all add: decrypts_one_def sees_close_def starved_def TLS_WANT_POLLIN_def)
  from read_attempt_contract [of "SecureDataReceived [23, 3, 3] connected" decrypts_one]
    read_attempt_contract [of "SecureDataReceived [21, 3, 3] connected" sees_close]
    read_attempt_contract [of connected starved]
    read_attempt_contract [of "connected\<lparr>tryRead := False\<rparr>" starved]
  show ?thesis
    by (auto simp: s e DECRYPTED_BUFFER_SIZE_def)
qed

text \<open>
  C7: over every sequence of events, the plaintext the engine has taken followed by what
  is left in \<^verbatim>\<open>sendBuffer_\<close> is what it was at the start followed by the payloads of the
  \<^verbatim>\<open>SendData\<close> calls in order; the ciphertext the read hook has handed to the engine
  followed by what is left in \<^verbatim>\<open>receiveBufferSecure_\<close> is what it was at the start
  followed by the payloads received in order. \<^verbatim>\<open>SendData\<close> and \<^verbatim>\<open>SecureDataReceived\<close>
  append at the tail.
\<close>

theorem buffers_are_queues:
  assumes "run evs s = Inr s'"
  shows "encrypted_of (calls s') @ sendBuffer s' =
           encrypted_of (calls s) @ sendBuffer s @ submitted evs \<and>
         fed_to_engine (calls s') @ receiveBufferSecure s' =
           fed_to_engine (calls s) @ receiveBufferSecure s @ delivered evs \<and>
         sendBuffer (SendData data s) = sendBuffer s @ data \<and>
         receiveBufferSecure (SecureDataReceived data s) = receiveBufferSecure s @ data"
  using run_streams [OF assms]
  by (simp add: plain_stream_def cipher_stream_def SendData_def SecureDataReceived_def)

text \<open>
  C7, at a concrete input: of the four bytes sent, the engine has taken the first two and
  the last two are queued; the record received has been handed to the engine whole.
\<close>

theorem buffers_are_queues_witness:
  "map_sum id (\<lambda>s. (encrypted_of (calls s), sendBuffer s)) (run send_and_receive connected) =
     Inr ([1, 2], [3, 4]) \<and>
   map_sum id (\<lambda>s. (fed_to_engine (calls s), receiveBufferSecure s))
     (run send_and_receive connected) = Inr ([23, 3, 3], []) \<and>
   submitted send_and_receive = [1, 2, 3, 4] \<and> delivered send_and_receive = [23, 3, 3]"
proof -
  have r: "\<exists>s'. run send_and_receive connected = Inr s' \<and> sendBuffer s' = [3, 4] \<and>
      receiveBufferSecure s' = []"
    by (simp add: send_and_receive_def scenario_defs)
  then obtain s' where s': "run send_and_receive connected = Inr s'"
    and b: "sendBuffer s' = [3, 4]" "receiveBufferSecure s' = []"
    by blast
  have c: "calls connected = []" "sendBuffer connected = []" "receiveBufferSecure connected = []"
    by (simp_all add: connected_def)
  have d: "submitted send_and_receive = [1, 2, 3, 4]" "delivered send_and_receive = [23, 3, 3]"
    by (simp_all add: send_and_receive_def submitted_def submitted_by_def delivered_def
        delivered_by_def)
  from buffers_are_queues [OF s'] b c d s' show ?thesis
    by (simp add: encrypted_of_def fed_to_engine_def)
qed

text \<open>
  C8: whenever \<^verbatim>\<open>Connect\<close> succeeds, on the connection itself or through
  \<^verbatim>\<open>TlsDecorator::Connect\<close>, the configuration given to the engine is the library's new
  configuration with certificate verification off, name verification off and the
  protocols set to \<^verbatim>\<open>TLS_PROTOCOLS_DEFAULT\<close>, whatever the arguments.
\<close>

theorem handshake_configuration:
  "(Connect lib upper dataReceived broken name s = (True, s') \<longrightarrow>
      tlsConfig s' = Some ((tls_config_new lib)\<lparr>verify_cert := False, verify_name := False,
                              protocols := TLS_PROTOCOLS_DEFAULT lib\<rparr>)) \<and>
   (TlsDecorator_Connect lib upper host port dataReceived broken = Some s' \<longrightarrow>
      tlsConfig s' = Some ((tls_config_new lib)\<lparr>verify_cert := False, verify_name := False,
                              protocols := TLS_PROTOCOLS_DEFAULT lib\<rparr>))"
  by (auto simp: TlsDecorator_Connect_def Connect_def Let_def TlsConnectionDecorator_def
      tls_config_insecure_noverifycert_def tls_config_insecure_noverifyname_def
      tls_config_set_protocols_def split: if_splits prod.splits bool.splits)

text \<open>
  C8, at a concrete input: a library whose new configuration verifies both, and a
  successful \<^verbatim>\<open>TlsDecorator::Connect\<close>.
\<close>

theorem handshake_configuration_witness:
  "Connect working_library True (Some 1) (Some 2) ''example.org'' TlsConnectionDecorator =
     (True, connected) \<and>
   TlsDecorator_Connect working_library True ''example.org'' 443 (Some 1) (Some 2) =
     Some connected \<and>
   verify_cert (tls_config_new working_library) \<and> verify_name (tls_config_new working_library) \<and>
   tlsConfig connected = Some \<lparr>verify_cert = False, verify_name = False, protocols = 8\<rparr>"
proof -
  have c: "Connect working_library True (Some 1) (Some 2) ''example.org'' TlsConnectionDecorator
             = (True, connected)"
    by (simp add: Connect_def Let_def TlsConnectionDecorator_def
      tls_config_insecure_noverifycert_def tls_config_insecure_noverifyname_def
      tls_config_set_protocols_def working_library_def connected_def)
  then have d: "TlsDecorator_Connect working_library True ''example.org'' 443 (Some 1) (Some 2)
             = Some connected"
    by (simp add: TlsDecorator_Connect_def)
  from handshake_configuration [of working_library True "Some 1" "Some 2" "''example.org''"
      TlsConnectionDecorator connected "''example.org''" 443] c d
  show ?thesis by (simp add: working_library_def)
qed

text \<open>
  C9: the write hook, given a buffer of \<open>L\<close> bytes, reports \<open>L\<close> in both cases; on a
  connection that is not open it does nothing else, and on an open one (with a raw
  connection present) it makes exactly one call \<^verbatim>\<open>upperLayer_->SendData\<close> with those
  bytes.
\<close>

theorem write_hook_forwards_or_discards:
  "(\<not> isOpen s \<longrightarrow> write_cb buf s = Inr (int (length buf), s)) \<and>
   (isOpen s \<and> upperLayer s \<longrightarrow>
      write_cb buf s = Inr (int (length buf), s\<lparr>calls := calls s @ [UpperSendData buf]\<rparr>))"
  by (simp add: write_cb_def)

text \<open>
  C9, at concrete inputs: a record of three bytes on a broken and on an open connection.
\<close>

theorem write_hook_forwards_or_discards_witness:
  "write_cb [23, 3, 3] (ConnectionBroken connected) = Inr (3, ConnectionBroken connected) \<and>
   write_cb [23, 3, 3] connected = Inr (3, connected\<lparr>calls := [UpperSendData [23, 3, 3]]\<rparr>)"
proof -
  have closed: "\<not> isOpen (ConnectionBroken connected)"
    by (simp add: ConnectionBroken_def ConnectionBroken_locked_def ConnectionBroken_test_def
        ConnectionBroken_call_def connected_def)
  have opened: "isOpen connected \<and> upperLayer connected" "calls connected = []"
    by (simp_all add: connected_def)
  from write_hook_forwards_or_discards [of "ConnectionBroken connected" "[23, 3, 3]"]
    write_hook_forwards_or_discards [of connected "[23, 3, 3]"] closed opened
  show ?thesis by simp
qed

text \<open>
  C10: \<^verbatim>\<open>SetDataReceivedDelegate\<close> and \<^verbatim>\<open>SetBrokenDelegate\<close> return the state they were
  given, for every argument; and over every sequence of events the two delegates are
  those the connection started with.
\<close>

theorem delegate_setters_change_nothing:
  "SetDataReceivedDelegate d s = s \<and> SetBrokenDelegate b s = s \<and>
   (\<forall>evs s'. run evs s = Inr s' \<longrightarrow>
      dataReceivedDelegate s' = dataReceivedDelegate s \<and> brokenDelegate s' = brokenDelegate s)"
  by (simp add: SetDataReceivedDelegate_def SetBrokenDelegate_def run_delegates)

text \<open>
  C10, at a concrete input: both setters are called on a fresh connection.
\<close>

theorem delegate_setters_change_nothing_witness:
  "run [CallSetDataReceivedDelegate (Some 7), CallSetBrokenDelegate None] connected = Inr connected \<and>
   SetDataReceivedDelegate (Some 7) connected = connected \<and>
   SetBrokenDelegate None connected = connected \<and>
   dataReceivedDelegate connected = Some 1 \<and> brokenDelegate connected = Some 2"
proof -
  have r: "run [CallSetDataReceivedDelegate (Some 7), CallSetBrokenDelegate None] connected
             = Inr connected"
    by (simp add: step_def SetDataReceivedDelegate_def SetBrokenDelegate_def)
  from delegate_setters_change_nothing [of "Some 7" connected None] r show ?thesis
    by (simp add: connected_def)
qed

end
